theory Spec2Isabelle
  imports Main "HOL-Library.Word" "HOL-Library.AList"
begin

unbundle bit_operations_syntax

section \<open>Go values\<close>

type_synonym byte = "8 word"
type_synonym uint32 = "32 word"
type_synonym uint64 = "64 word"

text \<open>
  Go's \<open>error\<close> interface, restricted to the values the tracer can meet: the four
  sentinel errors of opentracing-go, the two end-of-stream errors of package io, the two
  causes of a strconv.NumError, and any other error (with its message).
\<close>

datatype error =
    ErrSpanContextNotFound
  | ErrSpanContextCorrupted
  | ErrInvalidSpanContext
  | ErrInvalidCarrier
  | EOF
  | ErrUnexpectedEOF
  | ErrSyntax
  | ErrRange
  | OtherError string

section \<open>Package strings\<close>

text \<open>
  A Go string is a sequence of bytes, here a \<open>char list\<close>. \<open>strings.ToLower\<close> is
  modelled on ASCII strings, where Go maps \<open>A..Z\<close> to \<open>a..z\<close> and leaves every other
  byte alone. Go lower-cases multi-byte runes as well; the theorems below that depend on
  it therefore speak about ASCII keys (\<open>is_ascii\<close>).
\<close>

definition lower_byte :: "char \<Rightarrow> char" where
  "lower_byte c =
     (let n = (of_char c :: nat) in if 65 \<le> n \<and> n \<le> 90 then char_of (n + 32) else c)"

definition strings_ToLower :: "string \<Rightarrow> string" where
  "strings_ToLower s = map lower_byte s"

definition is_ascii :: "string \<Rightarrow> bool" where
  "is_ascii s = list_all (\<lambda>c. (of_char c :: nat) < 128) s"

definition has_upper :: "string \<Rightarrow> bool" where
  "has_upper s = list_ex (\<lambda>c. 65 \<le> (of_char c :: nat) \<and> (of_char c :: nat) \<le> 90) s"

text \<open>\<open>strings.Split(s, sep)\<close> for a separator of one byte.\<close>

fun strings_Split :: "string \<Rightarrow> char \<Rightarrow> string list" where
  "strings_Split [] sep = [[]]"
| "strings_Split (c # cs) sep =
     (if c = sep then [] # strings_Split cs sep
      else (case strings_Split cs sep of
              [] \<Rightarrow> [[c]]
            | p # ps \<Rightarrow> (c # p) # ps))"

definition strings_HasPrefix :: "string \<Rightarrow> string \<Rightarrow> bool" where
  "strings_HasPrefix s pre = (length pre \<le> length s \<and> take (length pre) s = pre)"

definition strings_TrimPrefix :: "string \<Rightarrow> string \<Rightarrow> string" where
  "strings_TrimPrefix s pre = (if strings_HasPrefix s pre then drop (length pre) s else s)"

text \<open>\<open>strings.Replace(s, old, new, -1)\<close> for an \<open>old\<close> of one byte: every occurrence.\<close>

definition strings_Replace :: "string \<Rightarrow> char \<Rightarrow> string \<Rightarrow> string" where
  "strings_Replace s old new = concat (map (\<lambda>c. if c = old then new else [c]) s)"

section \<open>Package strconv\<close>

definition digits :: string where
  "digits = ''0123456789abcdefghijklmnopqrstuvwxyz''"

text \<open>\<open>strconv.FormatUint(u, 16)\<close>: the loop of \<open>formatBits\<close> for a base that is a power of two.\<close>

function formatBits :: "uint64 \<Rightarrow> string" where
  "formatBits u =
     (if 16 \<le> u then formatBits (drop_bit 4 u) @ [digits ! unat (u AND 15)]
      else [digits ! unat u])"
  by pat_completeness auto
termination
proof (relation "measure unat")
  show "wf (measure unat)" by simp
next
  fix u :: uint64
  assume "16 \<le> u"
  then have "16 \<le> unat u"
    by (simp add: word_le_nat_alt)
  then have "drop_bit 4 (unat u) < unat u"
    by (simp add: drop_bit_eq_div)
  then show "(drop_bit 4 u, u) \<in> measure unat"
    by (simp add: unat_drop_bit_eq)
qed

declare formatBits.simps [simp del]

definition strconv_FormatUint16 :: "uint64 \<Rightarrow> string" where
  "strconv_FormatUint16 u = formatBits u"

definition strconv_FormatBool :: "bool \<Rightarrow> string" where
  "strconv_FormatBool b = (if b then ''true'' else ''false'')"

text \<open>
  \<open>strconv.ParseUint(s, 16, 64)\<close>. A digit is \<open>0..9\<close> or a letter; \<open>lower(c) = c | 0x20\<close>.
  A syntax error returns 0 and a range error the largest value, as the Go code does.
\<close>

definition ParseUint_digit :: "char \<Rightarrow> byte option" where
  "ParseUint_digit c =
     (let b = (of_char c :: byte); l = b OR 32 in
      if 48 \<le> b \<and> b \<le> 57 then Some (b - 48)
      else if 97 \<le> l \<and> l \<le> 122 then Some (l - 97 + 10)
      else None)"

definition ParseUint_cutoff :: uint64 where
  "ParseUint_cutoff = 2 ^ 60"

definition ParseUint_maxVal :: uint64 where
  "ParseUint_maxVal = - 1"

fun ParseUint_loop :: "string \<Rightarrow> uint64 \<Rightarrow> uint64 \<times> error option" where
  "ParseUint_loop [] n = (n, None)"
| "ParseUint_loop (c # cs) n =
     (case ParseUint_digit c of
        None \<Rightarrow> (0, Some ErrSyntax)
      | Some d \<Rightarrow>
          if 16 \<le> d then (0, Some ErrSyntax)
          else if ParseUint_cutoff \<le> n then (ParseUint_maxVal, Some ErrRange)
          else
            (let n' = n * 16; n1 = n' + ucast d in
             if n1 < n' \<or> ParseUint_maxVal < n1 then (ParseUint_maxVal, Some ErrRange)
             else ParseUint_loop cs n1))"

definition strconv_ParseUint16 :: "string \<Rightarrow> uint64 \<times> error option" where
  "strconv_ParseUint16 s = (if s = [] then (0, Some ErrSyntax) else ParseUint_loop s 0)"

definition strconv_ParseBool :: "string \<Rightarrow> bool \<times> error option" where
  "strconv_ParseBool str =
     (if str \<in> set [''1'', ''t'', ''T'', ''true'', ''TRUE'', ''True''] then (True, None)
      else if str \<in> set [''0'', ''f'', ''F'', ''false'', ''FALSE'', ''False''] then (False, None)
      else (False, Some ErrSyntax))"

text \<open>\<open>fmt.Sprintf("%016x", u)\<close>: lower-case hexadecimal, padded with zeros to 16 digits.\<close>

definition fmt_016x :: "uint64 \<Rightarrow> string" where
  "fmt_016x u = replicate (16 - length (formatBits u)) (CHR ''0'') @ formatBits u"

section \<open>Packages encoding/hex and github.com/google/uuid\<close>

definition hextable :: string where
  "hextable = ''0123456789abcdef''"

definition hex_Encode :: "byte list \<Rightarrow> string" where
  "hex_Encode src =
     concat (map (\<lambda>v. [hextable ! unat (drop_bit 4 v), hextable ! unat (v AND 15)]) src)"

text \<open>A UUID is \<open>[16]byte\<close>: a list of 16 bytes.\<close>

type_synonym UUID = "byte list"

definition uuid_Nil :: UUID where
  "uuid_Nil = replicate 16 0"

definition uuid_String :: "UUID \<Rightarrow> string" where
  "uuid_String u =
     hex_Encode (take 4 u) @ ''-'' @ hex_Encode (take 2 (drop 4 u)) @ ''-'' @
     hex_Encode (take 2 (drop 6 u)) @ ''-'' @ hex_Encode (take 2 (drop 8 u)) @ ''-'' @
     hex_Encode (drop 10 u)"

text \<open>The table \<open>xvalues\<close>: the value of a hexadecimal digit, 255 for any other byte.\<close>

definition xvalues :: "char \<Rightarrow> byte" where
  "xvalues c =
     (let b = (of_char c :: byte) in
      if 48 \<le> b \<and> b \<le> 57 then b - 48
      else if 65 \<le> b \<and> b \<le> 70 then b - 55
      else if 97 \<le> b \<and> b \<le> 102 then b - 87
      else 255)"

definition xtob :: "char \<Rightarrow> char \<Rightarrow> byte \<times> bool" where
  "xtob x1 x2 =
     (let b1 = xvalues x1; b2 = xvalues x2 in
      (push_bit 4 b1 OR b2, b1 \<noteq> 255 \<and> b2 \<noteq> 255))"

text \<open>
  \<open>uuid.Parse\<close> returns the UUID it has filled so far together with the error. The loop
  of the 32-digit form stores each byte before it checks it; the loop of the dashed forms
  checks first.
\<close>

fun Parse_plain :: "string \<Rightarrow> nat list \<Rightarrow> UUID \<Rightarrow> UUID \<times> error option" where
  "Parse_plain s [] u = (u, None)"
| "Parse_plain s (i # is) u =
     (case xtob (s ! (i * 2)) (s ! (i * 2 + 1)) of
        (v, ok) \<Rightarrow>
          if \<not> ok then (u[i := v], Some (OtherError ''invalid UUID format''))
          else Parse_plain s is (u[i := v]))"

fun Parse_dashed :: "string \<Rightarrow> (nat \<times> nat) list \<Rightarrow> UUID \<Rightarrow> UUID \<times> error option" where
  "Parse_dashed s [] u = (u, None)"
| "Parse_dashed s ((i, x) # ixs) u =
     (case xtob (s ! x) (s ! (x + 1)) of
        (v, ok) \<Rightarrow>
          if \<not> ok then (u, Some (OtherError ''invalid UUID format''))
          else Parse_dashed s ixs (u[i := v]))"

definition Parse_offsets :: "nat list" where
  "Parse_offsets = [0, 2, 4, 6, 9, 11, 14, 16, 19, 21, 24, 26, 28, 30, 32, 34]"

definition Parse_36 :: "string \<Rightarrow> UUID \<times> error option" where
  "Parse_36 s =
     (if s ! 8 \<noteq> CHR ''-'' \<or> s ! 13 \<noteq> CHR ''-'' \<or> s ! 18 \<noteq> CHR ''-'' \<or> s ! 23 \<noteq> CHR ''-''
      then (uuid_Nil, Some (OtherError ''invalid UUID format''))
      else Parse_dashed s (zip [0..<16] Parse_offsets) uuid_Nil)"

definition uuid_Parse :: "string \<Rightarrow> UUID \<times> error option" where
  "uuid_Parse s =
     (if length s = 36 then Parse_36 s
      else if length s = 36 + 9 then
        (if strings_ToLower (take 9 s) \<noteq> ''urn:uuid:''
         then (uuid_Nil, Some (OtherError ''invalid urn prefix''))
         else Parse_36 (drop 9 s))
      else if length s = 36 + 2 then Parse_36 (drop 1 s)
      else if length s = 32 then Parse_plain s [0..<16] uuid_Nil
      else (uuid_Nil, Some (OtherError ''invalid UUID length'')))"

section \<open>Span contexts and carriers\<close>

record SpanContext =
  TraceID :: UUID
  SpanID :: uint64
  Sampled :: bool
  Baggage :: "(string \<times> string) list"

text \<open>
  \<open>Baggage\<close> is a Go \<open>map[string]string\<close>: an association list with distinct keys. A map
  is read with \<open>map_of\<close> and written with \<open>AList.update\<close>; \<open>Inject\<close> ranges over the baggage
  in the order of the list.

  The \<open>opentracing.SpanContext\<close> interface value handed to \<open>Inject\<close> is either a
  \<open>SpanContext\<close> of this tracer or of some other implementation.
\<close>

datatype opaque_context = TracerSpanContext SpanContext | ForeignSpanContext

text \<open>
  The \<open>interface{}\<close> carrier. \<open>TextMapCarrier\<close> is \<open>opentracing.TextMapCarrier\<close>, a
  \<open>map[string]string\<close> that is both a \<open>TextMapWriter\<close> and a \<open>TextMapReader\<close>, as an
  association list with distinct keys. \<open>WriterCarrier\<close> is an \<open>io.Writer\<close>
  that keeps what is written (a \<open>bytes.Buffer\<close>). \<open>ReaderCarrier\<close> is an \<open>io.Reader\<close>, given
  by the answers it will give: each element is the bytes one call of \<open>Read\<close> delivers and the
  error that call returns with them.
\<close>

type_synonym reader = "(byte list \<times> error option) list"

datatype opaque_carrier =
    TextMapCarrier (text_entries: "(string \<times> string) list")
  | WriterCarrier (written: "byte list")
  | ReaderCarrier reader
  | OtherCarrier

definition TextMapCarrier_Set ::
  "string \<Rightarrow> string \<Rightarrow> (string \<times> string) list \<Rightarrow> (string \<times> string) list" where
  "TextMapCarrier_Set key val c = AList.update key val c"

text \<open>
  \<open>ForeachKey\<close> ranges over the map, calls the handler on each entry and stops at the first
  error. Go visits the entries of a map in an unspecified order, which may differ from one
  \<open>range\<close> to the next: the list given to \<open>TextMapCarrier_ForeachKey\<close> is the order of this
  visit. An \<open>enumeration\<close> of a map is any such order: each entry once.
\<close>

definition enumeration :: "('a list \<Rightarrow> 'a list) \<Rightarrow> 'a list \<Rightarrow> bool" where
  "enumeration visit c = (distinct (visit c) \<and> set (visit c) = set c)"

fun TextMapCarrier_ForeachKey ::
  "(string \<Rightarrow> string \<Rightarrow> 's \<Rightarrow> error option \<times> 's) \<Rightarrow> (string \<times> string) list \<Rightarrow> 's
     \<Rightarrow> error option \<times> 's" where
  "TextMapCarrier_ForeachKey handler [] st = (None, st)"
| "TextMapCarrier_ForeachKey handler ((k, v) # c) st =
     (case handler k v st of
        (Some e, st') \<Rightarrow> (Some e, st')
      | (None, st') \<Rightarrow> TextMapCarrier_ForeachKey handler c st')"

section \<open>The text-map propagator\<close>

definition prefixTracerState :: string where
  "prefixTracerState = ''ot-tracer-''"

definition prefixBaggage :: string where
  "prefixBaggage = ''ot-baggage-''"

definition tracerStateFieldCount :: int where
  "tracerStateFieldCount = 3"

definition fieldNameTraceID :: string where
  "fieldNameTraceID = prefixTracerState @ ''traceid''"

definition fieldNameSpanID :: string where
  "fieldNameSpanID = prefixTracerState @ ''spanid''"

definition fieldNameSampled :: string where
  "fieldNameSampled = prefixTracerState @ ''sampled''"

definition traceParentKey :: string where
  "traceParentKey = ''traceparent''"

text \<open>The trace identifier as \<open>Inject\<close> writes it: \<open>TraceID.String()\<close> without its dashes.\<close>

definition traceId_text :: "SpanContext \<Rightarrow> string" where
  "traceId_text sc = strings_Replace (uuid_String (TraceID sc)) (CHR ''-'') []"

text \<open>\<open>fmt.Sprintf("%v-%v-%016x-%v", "00", traceId, sc.SpanID, tpSampled)\<close>.\<close>

definition traceParentValue :: "SpanContext \<Rightarrow> string" where
  "traceParentValue sc =
     (let tpSampled = (if Sampled sc then ''01'' else ''00'')
      in ''00'' @ ''-'' @ traceId_text sc @ ''-'' @ fmt_016x (SpanID sc) @ ''-'' @ tpSampled)"

definition textMapPropagator_Inject ::
  "opaque_context \<Rightarrow> opaque_carrier \<Rightarrow> error option \<times> opaque_carrier" where
  "textMapPropagator_Inject spanContext opaqueCarrier =
     (case spanContext of
        ForeignSpanContext \<Rightarrow> (Some ErrInvalidSpanContext, opaqueCarrier)
      | TracerSpanContext sc \<Rightarrow>
          (case opaqueCarrier of
             TextMapCarrier carrier \<Rightarrow>
               (let traceId = traceId_text sc;
                    c1 = TextMapCarrier_Set fieldNameTraceID traceId carrier;
                    c2 = TextMapCarrier_Set fieldNameSpanID (strconv_FormatUint16 (SpanID sc)) c1;
                    c3 = TextMapCarrier_Set fieldNameSampled (strconv_FormatBool (Sampled sc)) c2;
                    c4 = TextMapCarrier_Set traceParentKey (traceParentValue sc) c3;
                    c5 = fold (\<lambda>(k, v). TextMapCarrier_Set (prefixBaggage @ k) v) (Baggage sc) c4
                in (None, TextMapCarrier c5))
           | _ \<Rightarrow> (Some ErrInvalidCarrier, opaqueCarrier)))"

text \<open>
  The variables the two closures of \<open>Extract\<close> share. The shared \<open>err\<close> is left out: each
  closure tests it right after assigning it, and \<open>Extract\<close> overwrites it with the result
  of each \<open>ForeachKey\<close>.
\<close>

record extract_vars =
  requiredFieldCount :: int
  traceID :: UUID
  spanID :: uint64
  sampled :: bool
  decodedBaggage :: "(string \<times> string) list"

definition extract_init :: extract_vars where
  "extract_init =
     \<lparr>requiredFieldCount = 0, traceID = uuid_Nil, spanID = 0, sampled = False,
      decodedBaggage = []\<rparr>"

text \<open>The closure of the first \<open>ForeachKey\<close>: the composite \<open>traceparent\<close> field.\<close>

definition Extract_traceparent :: "string \<Rightarrow> string \<Rightarrow> extract_vars \<Rightarrow> error option \<times> extract_vars" where
  "Extract_traceparent k v st =
     (if strings_ToLower k = traceParentKey then
        (if length v < 55 then (Some ErrSpanContextCorrupted, st)
         else
           (case strings_Split v (CHR ''-'') of
              p0 # p1 # p2 # p3 # rest \<Rightarrow>
                if p0 \<noteq> ''00'' \<or> length p1 \<noteq> 32 \<or> length p2 \<noteq> 16
                then (Some ErrSpanContextCorrupted, st)
                else
                  (case uuid_Parse p1 of
                     (tid, e1) \<Rightarrow>
                       let st1 = st\<lparr>traceID := tid\<rparr> in
                       if e1 \<noteq> None then (Some ErrSpanContextCorrupted, st1)
                       else
                         (case strconv_ParseUint16 p2 of
                            (sid, e2) \<Rightarrow>
                              let st2 = st1\<lparr>spanID := sid\<rparr> in
                              if e2 \<noteq> None then (Some ErrSpanContextCorrupted, st2)
                              else
                                (let st3 = (if p3 = ''01'' then st2\<lparr>sampled := True\<rparr> else st2);
                                     st4 = st3\<lparr>requiredFieldCount := requiredFieldCount st3 + 3\<rparr>
                                 in (None, st4\<lparr>requiredFieldCount := requiredFieldCount st4 + 1\<rparr>))))
            | _ \<Rightarrow> (Some ErrSpanContextCorrupted, st)))
      else
        (let st1 = st\<lparr>requiredFieldCount := requiredFieldCount st - 1\<rparr>
         in (None, st1\<lparr>requiredFieldCount := requiredFieldCount st1 + 1\<rparr>)))"

text \<open>The closure of the second \<open>ForeachKey\<close>: the three discrete fields and the baggage.\<close>

definition Extract_fields :: "string \<Rightarrow> string \<Rightarrow> extract_vars \<Rightarrow> error option \<times> extract_vars" where
  "Extract_fields k v st =
     (if strings_ToLower k = fieldNameTraceID then
        (case uuid_Parse v of
           (tid, e) \<Rightarrow>
             let st1 = st\<lparr>traceID := tid\<rparr> in
             if e \<noteq> None then (Some ErrSpanContextCorrupted, st1)
             else (None, st1\<lparr>requiredFieldCount := requiredFieldCount st1 + 1\<rparr>))
      else if strings_ToLower k = fieldNameSpanID then
        (case strconv_ParseUint16 v of
           (sid, e) \<Rightarrow>
             let st1 = st\<lparr>spanID := sid\<rparr> in
             if e \<noteq> None then (Some ErrSpanContextCorrupted, st1)
             else (None, st1\<lparr>requiredFieldCount := requiredFieldCount st1 + 1\<rparr>))
      else if strings_ToLower k = fieldNameSampled then
        (case strconv_ParseBool v of
           (b, e) \<Rightarrow>
             let st1 = st\<lparr>sampled := b\<rparr> in
             if e \<noteq> None then (Some ErrSpanContextCorrupted, st1)
             else (None, st1\<lparr>requiredFieldCount := requiredFieldCount st1 + 1\<rparr>))
      else
        (let lowercaseK = strings_ToLower k;
             st1 = (if strings_HasPrefix lowercaseK prefixBaggage
                    then st\<lparr>decodedBaggage :=
                           AList.update (strings_TrimPrefix lowercaseK prefixBaggage) v
                             (decodedBaggage st)\<rparr>
                    else st);
             st2 = st1\<lparr>requiredFieldCount := requiredFieldCount st1 - 1\<rparr>
         in (None, st2\<lparr>requiredFieldCount := requiredFieldCount st2 + 1\<rparr>)))"

text \<open>
  The body of \<open>Extract\<close> after the type assertion, for the order \<open>c1\<close> in which the first
  \<open>ForeachKey\<close> visits the entries and the order \<open>c2\<close> of the second. \<open>Extract\<close> assigns the
  result of the first \<open>ForeachKey\<close> to \<open>err\<close> and then assigns the result of the second one
  to the same variable, before it tests \<open>err\<close>: only the second result is looked at. The
  variables keep what the first pass stored.
\<close>

definition Extract_passes ::
  "(string \<times> string) list \<Rightarrow> (string \<times> string) list \<Rightarrow> error + SpanContext" where
  "Extract_passes c1 c2 =
     (case TextMapCarrier_ForeachKey Extract_traceparent c1 extract_init of
        (err1, st1) \<Rightarrow>
          (case TextMapCarrier_ForeachKey Extract_fields c2 st1 of
             (Some err, st2) \<Rightarrow> Inl err
           | (None, st2) \<Rightarrow>
               if requiredFieldCount st2 < tracerStateFieldCount then
                 (if requiredFieldCount st2 = 0 then Inl ErrSpanContextNotFound
                  else Inl ErrSpanContextCorrupted)
               else
                 Inr \<lparr>TraceID = traceID st2, SpanID = spanID st2, Sampled = sampled st2,
                      Baggage = decodedBaggage st2\<rparr>))"

text \<open>
  \<open>Extract\<close>. The parameters \<open>visit1\<close> and \<open>visit2\<close> are the orders in which the two
  \<open>ForeachKey\<close> calls visit the entries of the carrier.
\<close>

definition textMapPropagator_Extract ::
  "((string \<times> string) list \<Rightarrow> (string \<times> string) list) \<Rightarrow>
   ((string \<times> string) list \<Rightarrow> (string \<times> string) list) \<Rightarrow>
   opaque_carrier \<Rightarrow> error + SpanContext" where
  "textMapPropagator_Extract visit1 visit2 opaqueCarrier =
     (case opaqueCarrier of
        TextMapCarrier carrier \<Rightarrow> Extract_passes (visit1 carrier) (visit2 carrier)
      | _ \<Rightarrow> Inl ErrInvalidCarrier)"

section \<open>Packages encoding/binary and io\<close>

definition BigEndian_Uint32 :: "byte list \<Rightarrow> uint32" where
  "BigEndian_Uint32 b =
     ucast (b ! 3) OR push_bit 8 (ucast (b ! 2)) OR push_bit 16 (ucast (b ! 1)) OR
     push_bit 24 (ucast (b ! 0))"

definition BigEndian_PutUint32 :: "uint32 \<Rightarrow> byte list" where
  "BigEndian_PutUint32 v =
     [ucast (drop_bit 24 v), ucast (drop_bit 16 v), ucast (drop_bit 8 v), ucast v]"


definition BigEndian_PutUint64 :: "uint64 \<Rightarrow> byte list" where
  "BigEndian_PutUint64 v =
     [ucast (drop_bit 56 v), ucast (drop_bit 48 v), ucast (drop_bit 40 v), ucast (drop_bit 32 v),
      ucast (drop_bit 24 v), ucast (drop_bit 16 v), ucast (drop_bit 8 v), ucast v]"


text \<open>
  One call \<open>r.Read(p)\<close> with \<open>len(p) = n\<close>: the bytes stored in \<open>p\<close>, the error, and the reader
  afterwards. A call whose buffer is shorter than the bytes at hand takes what fits, without
  error, and leaves the rest. A reader with nothing left answers as an empty \<open>bytes.Buffer\<close>
  does: \<open>0, io.EOF\<close>, and \<open>0, nil\<close> for a buffer of length 0.
\<close>

fun io_Read :: "nat \<Rightarrow> reader \<Rightarrow> (byte list \<times> error option) \<times> reader" where
  "io_Read n [] = (([], if n = 0 then None else Some EOF), [])"
| "io_Read n ((d, e) # rest) =
     (if length d \<le> n then ((d, e), rest) else ((take n d, None), (drop n d, e) # rest))"

text \<open>A \<open>bytes.Buffer\<close> that holds \<open>bs\<close>, as a reader.\<close>

definition bytes_Buffer :: "byte list \<Rightarrow> reader" where
  "bytes_Buffer bs = (if bs = [] then [] else [(bs, None)])"

definition reader_size :: "reader \<Rightarrow> nat" where
  "reader_size r = sum_list (map (\<lambda>(d, e). Suc (length d)) r)"

text \<open>
  \<open>io.ReadFull(r, buf)\<close> with \<open>len(buf) = len\<close>, that is \<open>io.ReadAtLeast(r, buf, len(buf))\<close>: it
  calls \<open>Read\<close> on the rest of the buffer until the buffer is full or a call fails.
\<close>

function ReadAtLeast_loop :: "nat \<Rightarrow> byte list \<Rightarrow> reader \<Rightarrow> (byte list \<times> error option) \<times> reader" where
  "ReadAtLeast_loop len got r =
     (if length got < len then
        (case io_Read (len - length got) r of
           ((d, None), r') \<Rightarrow> ReadAtLeast_loop len (got @ d) r'
         | ((d, Some e), r') \<Rightarrow> ((got @ d, Some e), r'))
      else ((got, None), r))"
  by pat_completeness auto
termination
proof (relation "measure (\<lambda>(len, got, r). reader_size r)")
  show "wf (measure (\<lambda>(len, got, r). reader_size r))" by simp
next
  fix len :: nat and got :: "byte list" and r r' :: reader and x d e
  assume lt: "length got < len"
    and x: "(x, r') = io_Read (len - length got) r" "(d, e) = x" "e = None"
  have rd: "io_Read (len - length got) r = ((d, None), r')"
    using x by (cases "io_Read (len - length got) r") simp
  have "reader_size r' < reader_size r"
  proof (cases r)
    case Nil
    with rd lt show ?thesis by simp
  next
    case (Cons c rest)
    obtain d0 e0 where c: "c = (d0, e0)" by (cases c)
    show ?thesis
      using rd lt unfolding Cons c
      by (auto simp: reader_size_def split: if_splits)
  qed
  then show "((len, got @ d, r'), (len, got, r)) \<in> measure (\<lambda>(len, got, r). reader_size r)"
    by simp
qed

declare ReadAtLeast_loop.simps [simp del]

definition io_ReadFull :: "nat \<Rightarrow> reader \<Rightarrow> (byte list \<times> error option) \<times> reader" where
  "io_ReadFull len r =
     (case ReadAtLeast_loop len [] r of
        ((got, err), r') \<Rightarrow>
          if len \<le> length got then ((got, None), r')
          else if 0 < length got \<and> err = Some EOF then ((got, Some ErrUnexpectedEOF), r')
          else ((got, err), r'))"

text \<open>\<open>binary.Read(r, binary.BigEndian, &length)\<close> for a \<open>uint32\<close>.\<close>

definition binary_Read_uint32 :: "reader \<Rightarrow> (error + uint32) \<times> reader" where
  "binary_Read_uint32 r =
     (case io_ReadFull 4 r of
        ((bs, Some e), r') \<Rightarrow> (Inl e, r')
      | ((bs, None), r') \<Rightarrow> (Inr (BigEndian_Uint32 bs), r'))"



definition uuid_FromBytes :: "byte list \<Rightarrow> UUID \<times> error option" where
  "uuid_FromBytes b =
     (if length b \<noteq> 16 then (uuid_Nil, Some (OtherError ''invalid UUID (got wrong number of bytes)''))
      else (b, None))"

section \<open>The binary propagator\<close>

text \<open>
  \<open>wire.TracerState\<close>, the message that \<open>proto.Marshal\<close> and \<open>proto.Unmarshal\<close> encode and
  decode. The protobuf codec is a library outside the repository and the generated code of
  the message is not part of the sources: both functions are parameters.
\<close>

record TracerState =
  TraceIdHi :: uint64
  TraceIdLo :: uint64
  SpanId :: uint64
  wire_Sampled :: bool
  BaggageItems :: "(string \<times> string) list"

type_synonym unmarshaler = "byte list \<Rightarrow> error + TracerState"


text \<open>
  \<open>Extract\<close> reads the payload with one call \<open>carrier.Read(buf)\<close> and looks at \<open>n\<close> only when
  that call returned an error. The buffer handed to \<open>proto.Unmarshal\<close> has the decoded
  length: the bytes read, then the zero bytes of \<open>make\<close>.
\<close>

definition binaryPropagator_Extract ::
  "unmarshaler \<Rightarrow> opaque_carrier \<Rightarrow> (error + SpanContext) \<times> opaque_carrier" where
  "binaryPropagator_Extract proto_Unmarshal opaqueCarrier =
     (case opaqueCarrier of
        ReaderCarrier carrier \<Rightarrow>
          (case binary_Read_uint32 carrier of
             (Inl err, carrier1) \<Rightarrow> (Inl ErrSpanContextCorrupted, ReaderCarrier carrier1)
           | (Inr len, carrier1) \<Rightarrow>
               (case io_Read (unat len) carrier1 of
                  ((d, err), carrier2) \<Rightarrow>
                    (let n = length d;
                         buf = d @ replicate (unat len - n) 0
                     in if err \<noteq> None then
                          (if 0 < n then (Inl ErrSpanContextCorrupted, ReaderCarrier carrier2)
                           else (Inl ErrSpanContextNotFound, ReaderCarrier carrier2))
                        else
                          (case proto_Unmarshal buf of
                             Inl err' \<Rightarrow> (Inl ErrSpanContextCorrupted, ReaderCarrier carrier2)
                           | Inr ctx \<Rightarrow>
                               (let traceIdBytes =
                                      BigEndian_PutUint64 (TraceIdHi ctx) @
                                      BigEndian_PutUint64 (TraceIdLo ctx);
                                    traceID = fst (uuid_FromBytes traceIdBytes)
                                in (Inr \<lparr>TraceID = traceID, SpanID = SpanId ctx,
                                         Sampled = wire_Sampled ctx,
                                         Baggage = BaggageItems ctx\<rparr>,
                                    ReaderCarrier carrier2))))))
      | _ \<Rightarrow> (Inl ErrInvalidCarrier, opaqueCarrier))"

section \<open>The identifier generator\<close>






section \<open>The agent\<close>

text \<open>A \<open>time.Duration\<close> is a number of nanoseconds.\<close>

definition time_Second :: int where
  "time_Second = 1000000000"

definition time_Minute :: int where
  "time_Minute = 60 * time_Second"

definition testingModeFrequency :: int where
  "testingModeFrequency = time_Second"

definition nonTestingModeFrequency :: int where
  "nonTestingModeFrequency = time_Minute"

datatype panic_hook = LogErrorInRawSpan

text \<open>
  \<open>tracer.Options\<close> as \<open>NewAgent\<close> fills it. A recorder has type \<open>'r\<close>, and a pointer to one
  is an \<open>'r option\<close> (\<open>None\<close> is \<open>nil\<close>); the argument of \<open>ShouldSample\<close> has type \<open>'tid\<close>
  (\<open>uint64\<close> in \<open>NewAgent\<close>).
\<close>

record ('tid, 'r) Options =
  Recorder :: "'r option"
  ShouldSample :: "'tid \<Rightarrow> bool"
  MaxLogsPerSpan :: int
  OnSpanFinishPanic :: panic_hook

text \<open>
  Modelled from the spec: \<open>tracer.NewWithOptions\<close> and the tracer it returns (the tracer
  itself is not among the sources). The tracer keeps the options it was constructed with,
  among them the predicate \<open>ShouldSample\<close> supplied at construction.
\<close>

datatype ('tid, 'r) tracerImpl = Tracer (options: "('tid, 'r) Options")

definition NewWithOptions :: "('tid, 'r) Options \<Rightarrow> ('tid, 'r) tracerImpl" where
  "NewWithOptions opts = Tracer opts"

text \<open>
  The fields of \<open>Agent\<close> that \<open>NewAgent\<close> and \<open>SetTestingMode\<close> decide on. The metadata map,
  the logger and the file names are left out; \<open>tracer\<close> is \<open>None\<close> until it is constructed.
\<close>

record ('tid, 'r) Agent =
  tracer :: "('tid, 'r) tracerImpl option"
  apiEndpoint :: string
  apiKey :: string
  debugMode :: bool
  testingMode :: bool
  setGlobalTracer :: bool
  recorder :: "'r option"

text \<open>
  \<open>SetTestingMode\<close>. The recorder's \<open>ChangeFlushFrequency\<close> is not among the sources and is
  the parameter \<open>ChangeFlushFrequency\<close>: from the duration and the recorder pointer to the
  recorder pointer after the call.
\<close>

definition SetTestingMode ::
  "(int \<Rightarrow> 'r option \<Rightarrow> 'r option) \<Rightarrow> bool \<Rightarrow> ('tid, 'r) Agent \<Rightarrow> ('tid, 'r) Agent" where
  "SetTestingMode ChangeFlushFrequency enabled a =
     (let a1 = a\<lparr>testingMode := enabled\<rparr> in
      if testingMode a1
      then a1\<lparr>recorder := ChangeFlushFrequency testingModeFrequency (recorder a1)\<rparr>
      else a1\<lparr>recorder := ChangeFlushFrequency nonTestingModeFrequency (recorder a1)\<rparr>)"

definition WithApiKey :: "string \<Rightarrow> ('tid, 'r) Agent \<Rightarrow> ('tid, 'r) Agent" where
  "WithApiKey k agent = agent\<lparr>apiKey := k\<rparr>"

definition WithApiEndpoint :: "string \<Rightarrow> ('tid, 'r) Agent \<Rightarrow> ('tid, 'r) Agent" where
  "WithApiEndpoint e agent = agent\<lparr>apiEndpoint := e\<rparr>"

definition WithDebugEnabled :: "('tid, 'r) Agent \<Rightarrow> ('tid, 'r) Agent" where
  "WithDebugEnabled agent = agent\<lparr>debugMode := True\<rparr>"

definition WithTestingModeEnabled :: "('tid, 'r) Agent \<Rightarrow> ('tid, 'r) Agent" where
  "WithTestingModeEnabled agent = agent\<lparr>testingMode := True\<rparr>"

definition WithSetGlobalTracer :: "('tid, 'r) Agent \<Rightarrow> ('tid, 'r) Agent" where
  "WithSetGlobalTracer agent = agent\<lparr>setGlobalTracer := True\<rparr>"

text \<open>
  What \<open>NewAgent\<close> reads from the process it runs in: the environment (\<open>os.LookupEnv\<close> and
  the helper \<open>getBoolEnv\<close>), the configuration profile (its API key and endpoint), the
  result of \<open>parseDSN\<close>, the result of \<open>uuid.NewRandom\<close>, whether \<open>metadata[tags.CI]\<close> holds
  a \<open>bool\<close> once the metadata is collected (\<open>None\<close> if it does not), and the recorder that
  \<open>NewSpanRecorder\<close> returns.
\<close>

record 'r host =
  os_LookupEnv :: "string \<Rightarrow> string option"
  getBoolEnv :: "string \<Rightarrow> bool \<Rightarrow> bool"
  GetConfigCurrentProfile :: "(string \<times> string) option"
  parseDSN :: "string \<Rightarrow> error + string \<times> string"
  uuid_NewRandom :: "error + UUID"
  metadata_CI :: "bool option"
  NewSpanRecorder :: 'r

datatype 'a outcome = Returned 'a | Panicked

definition defaultApiEndpoint :: string where
  "defaultApiEndpoint = ''https://app.scope.dev''"

definition env_set :: "'r host \<Rightarrow> string \<Rightarrow> string option" where
  "env_set h name =
     (case os_LookupEnv h name of
        None \<Rightarrow> None
      | Some v \<Rightarrow> if v \<noteq> [] then Some v else None)"

text \<open>
  \<open>NewAgent\<close>, in the order of its body. The first part settles the API key and the
  endpoint (options first, then \<open>SCOPE_DSN\<close>, then \<open>SCOPE_APIKEY\<close> and
  \<open>SCOPE_API_ENDPOINT\<close>, then the configuration profile); it returns an error when no key
  is found.
\<close>

definition agent_from_dsn :: "'r host \<Rightarrow> ('tid, 'r) Agent \<Rightarrow> ('tid, 'r) Agent" where
  "agent_from_dsn h agent =
     (if apiKey agent = [] \<or> apiEndpoint agent = [] then
        (case env_set h ''SCOPE_DSN'' of
           None \<Rightarrow> agent
         | Some dsn \<Rightarrow>
             (case parseDSN h dsn of
                Inl dsnErr \<Rightarrow> agent
              | Inr (dsnApiKey, dsnApiEndpoint) \<Rightarrow>
                  agent\<lparr>apiKey := dsnApiKey, apiEndpoint := dsnApiEndpoint\<rparr>))
      else agent)"

definition agent_api_key :: "'r host \<Rightarrow> ('tid, 'r) Agent \<Rightarrow> error + ('tid, 'r) Agent" where
  "agent_api_key h agent =
     (if apiKey agent = [] then
        (case env_set h ''SCOPE_APIKEY'' of
           Some apikey \<Rightarrow> Inr (agent\<lparr>apiKey := apikey\<rparr>)
         | None \<Rightarrow>
             (case GetConfigCurrentProfile h of
                Some (profileKey, profileEndpoint) \<Rightarrow> Inr (agent\<lparr>apiKey := profileKey\<rparr>)
              | None \<Rightarrow> Inl (OtherError ''Scope API key could not be autodetected'')))
      else Inr agent)"

definition agent_api_endpoint :: "'r host \<Rightarrow> ('tid, 'r) Agent \<Rightarrow> ('tid, 'r) Agent" where
  "agent_api_endpoint h agent =
     (if apiEndpoint agent = [] then
        (case env_set h ''SCOPE_API_ENDPOINT'' of
           Some endpoint \<Rightarrow> agent\<lparr>apiEndpoint := endpoint\<rparr>
         | None \<Rightarrow>
             (case GetConfigCurrentProfile h of
                Some (profileKey, profileEndpoint) \<Rightarrow> agent\<lparr>apiEndpoint := profileEndpoint\<rparr>
              | None \<Rightarrow> agent\<lparr>apiEndpoint := defaultApiEndpoint\<rparr>))
      else agent)"

text \<open>
  The testing mode: \<open>SCOPE_TESTING_MODE\<close> when it is set, else the option or the CI entry of
  the metadata. The type assertion \<open>.(bool)\<close> panics when the entry is not a \<open>bool\<close>, and is
  not evaluated when the option already enabled the mode.
\<close>

definition agent_testing_mode :: "'r host \<Rightarrow> ('tid, 'r) Agent \<Rightarrow> bool option" where
  "agent_testing_mode h agent =
     (case os_LookupEnv h ''SCOPE_TESTING_MODE'' of
        Some v \<Rightarrow> Some (getBoolEnv h ''SCOPE_TESTING_MODE'' False)
      | None \<Rightarrow> if testingMode agent then Some True else metadata_CI h)"

definition NewAgent ::
  "'r host \<Rightarrow> (int \<Rightarrow> 'r option \<Rightarrow> 'r option) \<Rightarrow> (('tid, 'r) Agent \<Rightarrow> ('tid, 'r) Agent) list
     \<Rightarrow> (error + ('tid, 'r) Agent) outcome" where
  "NewAgent h ChangeFlushFrequency opts =
     (case uuid_NewRandom h of
        Inl err \<Rightarrow> Panicked
      | Inr agentId \<Rightarrow>
          (let agent0 = \<lparr>tracer = None, apiEndpoint = [], apiKey = [], debugMode = False,
                         testingMode = False, setGlobalTracer = False, recorder = None\<rparr>;
               agent1 = fold (\<lambda>opt agent. opt agent) opts agent0;
               agent2 = agent1\<lparr>debugMode := debugMode agent1 \<or> getBoolEnv h ''SCOPE_DEBUG'' False\<rparr>;
               agent3 = agent_from_dsn h agent2
           in case agent_api_key h agent3 of
                Inl err \<Rightarrow> Returned (Inl err)
              | Inr agent4 \<Rightarrow>
                  (let agent5 = agent_api_endpoint h agent4;
                       agent6 = agent5\<lparr>recorder := Some (NewSpanRecorder h)\<rparr>
                   in case agent_testing_mode h agent6 of
                        None \<Rightarrow> Panicked
                      | Some m \<Rightarrow>
                          (let agent7 =
                                 SetTestingMode ChangeFlushFrequency m (agent6\<lparr>testingMode := m\<rparr>);
                               agent8 =
                                 agent7\<lparr>tracer := Some (NewWithOptions
                                   \<lparr>Recorder = recorder agent7,
                                    ShouldSample = (\<lambda>traceID. True),
                                    MaxLogsPerSpan = 10000,
                                    OnSpanFinishPanic = LogErrorInRawSpan\<rparr>)\<rparr>
                           in Returned (Inr agent8)))))"

text \<open>
  Modelled from the spec: the tracer's \<open>StartSpan\<close>, which is not among the sources. With no
  parent the span is a trace root: it gets a new trace identifier and span identifier, and
  \<open>Sampled\<close> is what \<open>ShouldSample\<close> answers for the new trace identifier. With a parent,
  trace identifier, baggage and \<open>Sampled\<close> are inherited verbatim and only the span
  identifier is new. The caller supplies the generated identifiers.
\<close>

record 'tid span_context =
  sc_TraceID :: 'tid
  sc_SpanID :: uint64
  sc_Sampled :: bool
  sc_Baggage :: "(string \<times> string) list"

definition StartSpan ::
  "('tid, 'r) tracerImpl \<Rightarrow> 'tid span_context option \<Rightarrow> 'tid \<Rightarrow> uint64 \<Rightarrow> 'tid span_context" where
  "StartSpan t parent newTraceID newSpanID =
     (case parent of
        None \<Rightarrow>
          \<lparr>sc_TraceID = newTraceID, sc_SpanID = newSpanID,
           sc_Sampled = ShouldSample (options t) newTraceID, sc_Baggage = []\<rparr>
      | Some p \<Rightarrow> p\<lparr>sc_SpanID := newSpanID\<rparr>)"

text \<open>The spans of a tracer: its root spans and the children of its spans.\<close>

inductive span_of :: "('tid, 'r) tracerImpl \<Rightarrow> 'tid span_context \<Rightarrow> bool" for t where
  root_span: "span_of t (StartSpan t None newTraceID newSpanID)"
| child_span: "span_of t p \<Longrightarrow> span_of t (StartSpan t (Some p) newTraceID newSpanID)"

text \<open>A host with an empty environment, no configuration profile and a metadata map whose CI entry is \<open>false\<close>.\<close>

definition plain_host :: "unit host" where
  "plain_host =
     \<lparr>os_LookupEnv = (\<lambda>name. None), getBoolEnv = (\<lambda>name dflt. dflt),
      GetConfigCurrentProfile = None, parseDSN = (\<lambda>dsn. Inl ErrSyntax),
      uuid_NewRandom = Inr uuid_Nil, metadata_CI = Some False, NewSpanRecorder = ()\<rparr>"

section \<open>Vocabulary of the statements\<close>

text \<open>
  A valid span context: the trace identifier has its 16 bytes and the baggage is a map (no
  key twice).
\<close>

definition valid_SpanContext :: "SpanContext \<Rightarrow> bool" where
  "valid_SpanContext sc = (length (TraceID sc) = 16 \<and> distinct (map fst (Baggage sc)))"

definition lower_hex :: "string \<Rightarrow> bool" where
  "lower_hex s = list_all (\<lambda>c. c \<in> set hextable) s"

text \<open>Baggage keys that lower-casing leaves alone: ASCII, with no letter in \<open>A..Z\<close>.\<close>

definition lower_case_keys :: "(string \<times> string) list \<Rightarrow> bool" where
  "lower_case_keys bag = list_all (\<lambda>(k, v). is_ascii k \<and> \<not> has_upper k) bag"

text \<open>
  The field of a carrier under a lower-case name: the value of the entry whose key, once
  lower-cased, is the name. \<open>distinct_fields\<close> says that no two keys of the carrier agree
  after lower-casing.
\<close>

definition lookup_field :: "(string \<times> string) list \<Rightarrow> string \<Rightarrow> string option" where
  "lookup_field c name = map_of (map (\<lambda>(k, v). (strings_ToLower k, v)) c) name"

definition distinct_fields :: "(string \<times> string) list \<Rightarrow> bool" where
  "distinct_fields c = distinct (map (\<lambda>(k, v). strings_ToLower k) c)"

text \<open>
  The tests of the first closure of \<open>Extract\<close> on the value of the composite field, as the
  source has them: \<open>len(v) >= 55\<close>, \<open>len(traceParentArray) >= 4\<close>, the version \<open>00\<close>, a trace
  part of 32 and a span part of 16 bytes, and both parts parse. These are the values on
  which the closure returns \<open>nil\<close>. Then the trace identifier, the span identifier and the
  flag that the closure stores.
\<close>

definition traceparent_accepted :: "string \<Rightarrow> bool" where
  "traceparent_accepted v =
     (55 \<le> length v \<and>
      (case strings_Split v (CHR ''-'') of
         p0 # p1 # p2 # p3 # rest \<Rightarrow>
           p0 = ''00'' \<and> length p1 = 32 \<and> length p2 = 16 \<and>
           snd (uuid_Parse p1) = None \<and> snd (strconv_ParseUint16 p2) = None
       | _ \<Rightarrow> False))"

definition traceparent_TraceID :: "string \<Rightarrow> UUID" where
  "traceparent_TraceID v = fst (uuid_Parse (strings_Split v (CHR ''-'') ! 1))"

definition traceparent_SpanID :: "string \<Rightarrow> uint64" where
  "traceparent_SpanID v = fst (strconv_ParseUint16 (strings_Split v (CHR ''-'') ! 2))"

definition traceparent_Sampled :: "string \<Rightarrow> bool" where
  "traceparent_Sampled v = (strings_Split v (CHR ''-'') ! 3 = ''01'')"

definition composite_accepted :: "(string \<times> string) list \<Rightarrow> bool" where
  "composite_accepted c =
     (case lookup_field c traceParentKey of None \<Rightarrow> False | Some v \<Rightarrow> traceparent_accepted v)"

text \<open>
  The discrete fields that are present parse: the second closure returns \<open>nil\<close> on each
  of them.
\<close>

definition fields_wellformed :: "(string \<times> string) list \<Rightarrow> bool" where
  "fields_wellformed c =
     ((case lookup_field c fieldNameTraceID of
         None \<Rightarrow> True | Some v \<Rightarrow> snd (uuid_Parse v) = None) \<and>
      (case lookup_field c fieldNameSpanID of
         None \<Rightarrow> True | Some v \<Rightarrow> snd (strconv_ParseUint16 v) = None) \<and>
      (case lookup_field c fieldNameSampled of
         None \<Rightarrow> True | Some v \<Rightarrow> snd (strconv_ParseBool v) = None))"

text \<open>
  The number of required fields that the two closures accept on a carrier with one entry
  for each field: one for each discrete field that parses, and three for a composite field
  that passes the tests of the first closure.
\<close>

definition accepted_field_count :: "(string \<times> string) list \<Rightarrow> nat" where
  "accepted_field_count c =
     (case lookup_field c fieldNameTraceID of
        None \<Rightarrow> 0 | Some v \<Rightarrow> if snd (uuid_Parse v) = None then 1 else 0) +
     (case lookup_field c fieldNameSpanID of
        None \<Rightarrow> 0 | Some v \<Rightarrow> if snd (strconv_ParseUint16 v) = None then 1 else 0) +
     (case lookup_field c fieldNameSampled of
        None \<Rightarrow> 0 | Some v \<Rightarrow> if snd (strconv_ParseBool v) = None then 1 else 0) +
     (if composite_accepted c then 3 else 0)"

text \<open>
  The span context a carrier decodes to: each discrete field when it is present, else the
  part of the composite field; the baggage maps \<open>key\<close> to the field \<open>ot-baggage-key\<close>.
\<close>

definition decoded_TraceID :: "(string \<times> string) list \<Rightarrow> UUID" where
  "decoded_TraceID c =
     (case lookup_field c fieldNameTraceID of
        Some v \<Rightarrow> fst (uuid_Parse v)
      | None \<Rightarrow> traceparent_TraceID (the (lookup_field c traceParentKey)))"

definition decoded_SpanID :: "(string \<times> string) list \<Rightarrow> uint64" where
  "decoded_SpanID c =
     (case lookup_field c fieldNameSpanID of
        Some v \<Rightarrow> fst (strconv_ParseUint16 v)
      | None \<Rightarrow> traceparent_SpanID (the (lookup_field c traceParentKey)))"

definition decoded_Sampled :: "(string \<times> string) list \<Rightarrow> bool" where
  "decoded_Sampled c =
     (case lookup_field c fieldNameSampled of
        Some v \<Rightarrow> fst (strconv_ParseBool v)
      | None \<Rightarrow> composite_accepted c \<and> traceparent_Sampled (the (lookup_field c traceParentKey)))"

definition decoded_Baggage :: "(string \<times> string) list \<Rightarrow> string \<Rightarrow> string option" where
  "decoded_Baggage c key = lookup_field c (prefixBaggage @ key)"

text \<open>
  The entries that \<open>Inject\<close> is to write: the three discrete fields, the composite field,
  and one entry for each baggage item.
\<close>

definition injected_entries :: "SpanContext \<Rightarrow> (string \<times> string) list" where
  "injected_entries sc =
     [(fieldNameTraceID, hex_Encode (TraceID sc)),
      (fieldNameSpanID, strconv_FormatUint16 (SpanID sc)),
      (fieldNameSampled, strconv_FormatBool (Sampled sc)),
      (traceParentKey, traceParentValue sc)] @
     map (\<lambda>(k, v). (prefixBaggage @ k, v)) (Baggage sc)"

text \<open>The two encodings of an injected carrier, each with the baggage.\<close>

definition discrete_only :: "(string \<times> string) list \<Rightarrow> (string \<times> string) list" where
  "discrete_only c = filter (\<lambda>(k, v). k \<noteq> traceParentKey) c"

definition composite_only :: "(string \<times> string) list \<Rightarrow> (string \<times> string) list" where
  "composite_only c =
     filter (\<lambda>(k, v). k \<noteq> fieldNameTraceID \<and> k \<noteq> fieldNameSpanID \<and> k \<noteq> fieldNameSampled) c"

text \<open>
  What the second closure does to the variables when it accepts its entry, and the entries
  it accepts: those that are not a malformed discrete field.
\<close>

definition field_accepted :: "string \<times> string \<Rightarrow> bool" where
  "field_accepted kv =
     (case kv of (k, v) \<Rightarrow>
        if strings_ToLower k = fieldNameTraceID then snd (uuid_Parse v) = None
        else if strings_ToLower k = fieldNameSpanID then snd (strconv_ParseUint16 v) = None
        else if strings_ToLower k = fieldNameSampled then snd (strconv_ParseBool v) = None
        else True)"

definition field_effect :: "string \<times> string \<Rightarrow> extract_vars \<Rightarrow> extract_vars" where
  "field_effect kv st =
     (case kv of (k, v) \<Rightarrow>
        if strings_ToLower k = fieldNameTraceID
        then st\<lparr>traceID := fst (uuid_Parse v), requiredFieldCount := requiredFieldCount st + 1\<rparr>
        else if strings_ToLower k = fieldNameSpanID
        then st\<lparr>spanID := fst (strconv_ParseUint16 v),
               requiredFieldCount := requiredFieldCount st + 1\<rparr>
        else if strings_ToLower k = fieldNameSampled
        then st\<lparr>sampled := fst (strconv_ParseBool v),
               requiredFieldCount := requiredFieldCount st + 1\<rparr>
        else if strings_HasPrefix (strings_ToLower k) prefixBaggage
        then st\<lparr>decodedBaggage :=
               AList.update (drop (length prefixBaggage) (strings_ToLower k)) v
                 (decodedBaggage st)\<rparr>
        else st)"

definition discrete_count :: "(string \<times> string) list \<Rightarrow> nat" where
  "discrete_count c =
     (if lookup_field c fieldNameTraceID = None then 0 else 1) +
     (if lookup_field c fieldNameSpanID = None then 0 else 1) +
     (if lookup_field c fieldNameSampled = None then 0 else 1)"



text \<open>A span context to try the statements on.\<close>

definition example_context :: SpanContext where
  "example_context =
     \<lparr>TraceID = [0, 1, 2, 3, 4, 5, 6, 7, 8, 9, 10, 11, 12, 13, 14, 15], SpanID = 255,
      Sampled = True, Baggage = [(''user'', ''42'')]\<rparr>"

section \<open>Hexadecimal digits\<close>

lemma nibble_hi: "unat (drop_bit 4 (v::byte)) < 16"
proof -
  have "unat v < 256" using unsigned_less [of v, where 'a = nat] by simp
  then have "drop_bit 4 (unat v) < 16" by (simp add: drop_bit_eq_div)
  then show ?thesis by (simp add: unat_drop_bit_eq)
qed

lemma nibble_lo: "unat ((v::byte) AND 15) < 16"
proof -
  have "v AND 15 \<le> 15" by (rule word_and_le1)
  then show ?thesis by (simp add: word_le_nat_alt)
qed

lemma less_16_cases:
  assumes "n < (16::nat)"
  shows "n \<in> set [0, 1, 2, 3, 4, 5, 6, 7, 8, 9, 10, 11, 12, 13, 14, 15]"
  using assms by (simp; arith)

lemma xvalues_hextable: "n < 16 \<Longrightarrow> xvalues (hextable ! n) = of_nat n"
  by (drule less_16_cases) (auto simp: xvalues_def hextable_def)

lemma nibble_join: "push_bit 4 (drop_bit 4 (v::byte)) OR (v AND 15) = v"
proof -
  have m: "(15::byte) = mask 4" by (simp add: mask_eq_exp_minus_1)
  show ?thesis
    unfolding m by (rule bit_word_eqI) (auto simp: bit_simps)
qed

lemma xtob_hex:
  "xtob (hextable ! unat (drop_bit 4 v)) (hextable ! unat (v AND 15)) = (v, True)"
proof -
  have hi: "xvalues (hextable ! unat (drop_bit 4 v)) = drop_bit 4 v"
    using xvalues_hextable [OF nibble_hi [of v]] by simp
  have lo: "xvalues (hextable ! unat (v AND 15)) = v AND 15"
    using xvalues_hextable [OF nibble_lo [of v]] by simp
  have "unat (drop_bit 4 v) \<noteq> unat (255::byte)"
    using nibble_hi [of v] by simp
  then have hi': "drop_bit 4 v \<noteq> 255" by auto
  have "unat (v AND 15) \<noteq> unat (255::byte)"
    using nibble_lo [of v] by simp
  then have lo': "v AND 15 \<noteq> 255" by auto
  show ?thesis
    by (simp add: xtob_def hi lo hi' lo' nibble_join)
qed

lemma hex_Encode_Cons:
  "hex_Encode (v # u) = hextable ! unat (drop_bit 4 v) # hextable ! unat (v AND 15) # hex_Encode u"
  by (simp add: hex_Encode_def)

lemma hex_Encode_Nil: "hex_Encode [] = []"
  by (simp add: hex_Encode_def)

lemma hex_Encode_append: "hex_Encode (a @ b) = hex_Encode a @ hex_Encode b"
  by (simp add: hex_Encode_def)

lemma length_hex_Encode: "length (hex_Encode u) = 2 * length u"
  by (induction u) (simp_all add: hex_Encode_Cons hex_Encode_Nil)

lemma hex_Encode_nth:
  "i < length u \<Longrightarrow>
   hex_Encode u ! (i * 2) = hextable ! unat (drop_bit 4 (u ! i)) \<and>
   hex_Encode u ! Suc (i * 2) = hextable ! unat (u ! i AND 15)"
proof (induction u arbitrary: i)
  case Nil
  then show ?case by simp
next
  case (Cons v u)
  show ?case
  proof (cases i)
    case 0
    then show ?thesis by (simp add: hex_Encode_Cons)
  next
    case (Suc j)
    with Cons.prems have "j < length u" by simp
    from Cons.IH [OF this] show ?thesis
      by (simp add: hex_Encode_Cons Suc)
  qed
qed

lemma Parse_plain_hex:
  assumes "\<forall>i \<in> set is. i < length u"
  shows "Parse_plain (hex_Encode u) is u0 = (fold (\<lambda>i acc. acc[i := u ! i]) is u0, None)"
  using assms by (induction "is" arbitrary: u0) (simp_all add: hex_Encode_nth xtob_hex)

lemma fold_update_upt:
  "length u0 = length u \<Longrightarrow> n \<le> length u \<Longrightarrow>
   fold (\<lambda>i acc. acc[i := u ! i]) [0..<n] u0 = take n u @ drop n u0"
proof (induction n)
  case 0
  then show ?case by simp
next
  case (Suc n)
  then have n: "n < length u" "n < length u0" by simp_all
  have "fold (\<lambda>i acc. acc[i := u ! i]) [0..<Suc n] u0 = (take n u @ drop n u0)[n := u ! n]"
    using Suc by simp
  also have "\<dots> = take n u @ (drop n u0)[0 := u ! n]"
    using n by (simp add: list_update_append)
  also have "\<dots> = take n u @ u ! n # drop (Suc n) u0"
    using n by (simp add: Cons_nth_drop_Suc [symmetric])
  also have "\<dots> = take (Suc n) u @ drop (Suc n) u0"
    using n by (simp add: take_Suc_conv_app_nth)
  finally show ?case .
qed

lemma uuid_Parse_hex_Encode:
  assumes "length u = 16"
  shows "uuid_Parse (hex_Encode u) = (u, None)"
proof -
  have "Parse_plain (hex_Encode u) [0..<16] uuid_Nil =
          (fold (\<lambda>i acc. acc[i := u ! i]) [0..<16] uuid_Nil, None)"
    by (rule Parse_plain_hex) (simp add: assms)
  moreover have "fold (\<lambda>i acc. acc[i := u ! i]) [0..<16] uuid_Nil = take 16 u @ drop 16 uuid_Nil"
    by (rule fold_update_upt) (simp_all add: assms uuid_Nil_def)
  ultimately show ?thesis
    by (simp add: uuid_Parse_def length_hex_Encode assms uuid_Nil_def)
qed

section \<open>Parsing what FormatUint prints\<close>

lemma ParseUint_digit_digits: "n < 16 \<Longrightarrow> ParseUint_digit (digits ! n) = Some (of_nat n)"
  by (drule less_16_cases) (auto simp: ParseUint_digit_def digits_def)

lemma small_digit:
  "n < 16 \<Longrightarrow> \<not> (16::byte) \<le> of_nat n \<and> (ucast (of_nat n :: byte) :: uint64) = of_nat n"
  by (drule less_16_cases) (auto simp: word_le_nat_alt)

lemma ParseUint_loop_append:
  "ParseUint_loop (xs @ ys) n =
     (case ParseUint_loop xs n of
        (m, None) \<Rightarrow> ParseUint_loop ys m
      | (m, Some e) \<Rightarrow> (m, Some e))"
  by (induction xs arbitrary: n) (auto simp: Let_def split: option.splits)

lemma unat_drop_bit_4: "unat (drop_bit 4 (u::uint64)) = unat u div 16"
  unfolding unat_drop_bit_eq by (simp add: drop_bit_eq_div)

lemma unat_and_15: "unat ((u::uint64) AND 15) = unat u mod 16"
proof -
  have "(15::uint64) = mask 4" by (simp add: mask_eq_exp_minus_1)
  then have "u AND 15 = take_bit 4 u" by (simp add: take_bit_eq_mask)
  then show ?thesis by (simp add: unsigned_take_bit_eq take_bit_eq_mod unat_mod)
qed

lemma ParseUint_step:
  assumes k: "k < 16" and n: "unat n < 2 ^ 60"
  shows "ParseUint_loop (digits ! k # cs) n = ParseUint_loop cs (n * 16 + of_nat k)"
    and "unat (n * 16 + of_nat k) = unat n * 16 + k"
proof -
  have m: "unat (n * 16) = unat n * 16"
    using n by (simp add: unat_mult_lem [THEN iffD1])
  have kk: "unat (of_nat k :: uint64) = k"
    using k by (simp add: unat_of_nat)
  show a: "unat (n * 16 + of_nat k) = unat n * 16 + k"
    using n k m kk by (simp add: unat_add_lem [THEN iffD1])
  have le: "\<not> n * 16 + of_nat k < n * 16"
    using a m by (simp add: word_less_nat_alt)
  have cut: "\<not> ParseUint_cutoff \<le> n"
    using n by (simp add: ParseUint_cutoff_def word_le_nat_alt)
  have mx: "\<not> ParseUint_maxVal < n * 16 + of_nat k"
    by (simp add: ParseUint_maxVal_def word_less_nat_alt word_le_nat_alt [symmetric] not_less)
  show "ParseUint_loop (digits ! k # cs) n = ParseUint_loop cs (n * 16 + of_nat k)"
    using small_digit [OF k] le cut mx
    by (simp add: ParseUint_digit_digits [OF k] Let_def)
qed

lemma ParseUint_loop_formatBits: "ParseUint_loop (formatBits u) 0 = (u, None)"
proof (induction u rule: formatBits.induct)
  case (1 u)
  show ?case
  proof (cases "16 \<le> u")
    case True
    let ?n = "drop_bit 4 u" and ?k = "unat (u AND 15)"
    have k: "?k < 16" by (simp add: unat_and_15)
    have n: "unat ?n < 2 ^ 60"
      using unsigned_less [of u, where 'a = nat] by (simp add: unat_drop_bit_4)
    have "unat (?n * 16 + of_nat ?k) = unat ?n * 16 + ?k"
      by (rule ParseUint_step(2) [OF k n])
    also have "\<dots> = unat u"
      by (simp add: unat_drop_bit_4 unat_and_15)
    finally have eq: "?n * 16 + of_nat ?k = u"
      by (simp only: word_unat_eq_iff)
    have fb: "formatBits u = formatBits ?n @ [digits ! ?k]"
      using True by (subst formatBits.simps) simp
    have "ParseUint_loop (formatBits u) 0 = ParseUint_loop [digits ! ?k] ?n"
      by (simp add: fb ParseUint_loop_append "1.IH" [OF True] del: ParseUint_loop.simps)
    also have "\<dots> = ParseUint_loop [] (?n * 16 + of_nat ?k)"
      by (rule ParseUint_step(1) [OF k n])
    finally show ?thesis
      using eq by simp
  next
    case False
    then have k: "unat u < 16" by (simp add: word_le_nat_alt not_le)
    have f: "formatBits u = [digits ! unat u]"
      using False by (subst formatBits.simps) simp
    have "ParseUint_loop (formatBits u) 0 = ParseUint_loop [] (0 * 16 + of_nat (unat u))"
      unfolding f by (rule ParseUint_step(1) [OF k]) simp
    then show ?thesis
      by simp
  qed
qed

lemma formatBits_not_Nil: "formatBits u \<noteq> []"
  by (subst formatBits.simps) simp

lemma strconv_ParseUint16_FormatUint16:
  "strconv_ParseUint16 (strconv_FormatUint16 u) = (u, None)"
  by (simp add: strconv_ParseUint16_def strconv_FormatUint16_def formatBits_not_Nil
      ParseUint_loop_formatBits)

lemma ParseUint_loop_zeros: "ParseUint_loop (replicate m (CHR ''0'') @ cs) 0 = ParseUint_loop cs 0"
proof (induction m)
  case 0
  then show ?case by simp
next
  case (Suc m)
  have z: "CHR ''0'' = digits ! 0" by (simp add: digits_def)
  have "ParseUint_loop (digits ! 0 # replicate m (CHR ''0'') @ cs) 0 =
          ParseUint_loop (replicate m (CHR ''0'') @ cs) (0 * 16 + of_nat 0)"
    by (rule ParseUint_step(1)) simp_all
  then show ?case
    using Suc by (simp add: z [symmetric] del: ParseUint_loop.simps)
qed

lemma strconv_ParseUint16_fmt_016x: "strconv_ParseUint16 (fmt_016x u) = (u, None)"
  by (simp add: strconv_ParseUint16_def fmt_016x_def formatBits_not_Nil ParseUint_loop_zeros
      ParseUint_loop_formatBits)

section \<open>What Inject writes can be read back\<close>

lemma hextable_nth_mem: "n < 16 \<Longrightarrow> hextable ! n \<in> set hextable"
  by (rule nth_mem) (simp add: hextable_def)

lemma digits_nth_hextable: "n < 16 \<Longrightarrow> digits ! n \<in> set hextable"
  by (drule less_16_cases) (auto simp: digits_def hextable_def)

lemma lower_hex_hex_Encode: "lower_hex (hex_Encode u)"
  by (induction u)
    (simp_all add: lower_hex_def hex_Encode_Nil hex_Encode_Cons hextable_nth_mem nibble_hi
      nibble_lo)

lemma lower_hex_append: "lower_hex (a @ b) = (lower_hex a \<and> lower_hex b)"
  by (simp add: lower_hex_def)

lemma lower_hex_formatBits: "lower_hex (formatBits u)"
proof (induction u rule: formatBits.induct)
  case (1 u)
  show ?case
  proof (cases "16 \<le> u")
    case True
    have "lower_hex [digits ! unat (u AND 15)]"
      by (simp add: lower_hex_def digits_nth_hextable unat_and_15)
    with "1.IH" [OF True] True show ?thesis
      by (subst formatBits.simps) (simp add: lower_hex_append)
  next
    case False
    then have "unat u < 16" by (simp add: word_le_nat_alt not_le)
    then have "lower_hex [digits ! unat u]"
      by (simp add: lower_hex_def digits_nth_hextable)
    with False show ?thesis
      by (subst formatBits.simps) simp
  qed
qed

lemma length_formatBits: "unat u < 16 ^ n \<Longrightarrow> 0 < n \<Longrightarrow> length (formatBits u) \<le> n"
proof (induction u arbitrary: n rule: formatBits.induct)
  case (1 u)
  show ?case
  proof (cases "16 \<le> u")
    case True
    then have u16: "16 \<le> unat u" by (simp add: word_le_nat_alt)
    obtain m where n: "n = Suc m" using "1.prems"(2) by (cases n) auto
    have "m \<noteq> 0" using u16 "1.prems"(1) n by (cases m) auto
    moreover have "unat (drop_bit 4 u) < 16 ^ m"
      using "1.prems"(1) n by (simp add: unat_drop_bit_4 less_mult_imp_div_less)
    ultimately have "length (formatBits (drop_bit 4 u)) \<le> m"
      using "1.IH" [OF True, of m] by simp
    with True n show ?thesis
      by (subst formatBits.simps) simp
  next
    case False
    with "1.prems"(2) show ?thesis
      by (subst formatBits.simps) simp
  qed
qed

lemma length_fmt_016x: "length (fmt_016x u) = 16"
proof -
  have "unat u < 16 ^ 16"
    using unsigned_less [of u, where 'a = nat] by simp
  then have "length (formatBits u) \<le> 16"
    by (rule length_formatBits) simp
  then show ?thesis
    by (simp add: fmt_016x_def)
qed

lemma lower_hex_zeros: "lower_hex (replicate n (CHR ''0''))"
  by (induction n) (simp_all add: lower_hex_def hextable_def)

lemma lower_hex_fmt_016x: "lower_hex (fmt_016x u)"
  by (simp add: fmt_016x_def lower_hex_append lower_hex_formatBits lower_hex_zeros)

lemma lower_hex_no_dash:
  assumes "lower_hex s"
  shows "CHR ''-'' \<notin> set s"
proof
  assume "CHR ''-'' \<in> set s"
  with assms have "CHR ''-'' \<in> set hextable"
    unfolding lower_hex_def list_all_iff by blast
  then show False
    by (simp add: hextable_def)
qed

lemma strings_Replace_filter: "strings_Replace s c [] = filter (\<lambda>x. x \<noteq> c) s"
  by (induction s) (simp_all add: strings_Replace_def)

lemma filter_no_dash: "lower_hex s \<Longrightarrow> filter (\<lambda>x. x \<noteq> CHR ''-'') s = s"
  using lower_hex_no_dash [of s] by (auto simp: filter_id_conv)

lemma uuid_parts: "take 4 u @ take 2 (drop 4 u) @ take 2 (drop 6 u) @ take 2 (drop 8 u) @ drop 10 u = u"
proof -
  have "take 2 (drop 8 u) @ drop 10 u = drop 8 u"
    using append_take_drop_id [of 2 "drop 8 u"] by simp
  moreover have "take 2 (drop 6 u) @ drop 8 u = drop 6 u"
    using append_take_drop_id [of 2 "drop 6 u"] by simp
  moreover have "take 2 (drop 4 u) @ drop 6 u = drop 4 u"
    using append_take_drop_id [of 2 "drop 4 u"] by simp
  ultimately show ?thesis by simp
qed

lemma traceId_text_hex: "traceId_text sc = hex_Encode (TraceID sc)"
proof -
  have "traceId_text sc =
          hex_Encode (take 4 (TraceID sc) @ take 2 (drop 4 (TraceID sc)) @
            take 2 (drop 6 (TraceID sc)) @ take 2 (drop 8 (TraceID sc)) @ drop 10 (TraceID sc))"
    by (simp add: traceId_text_def uuid_String_def strings_Replace_filter hex_Encode_append
        filter_no_dash lower_hex_hex_Encode)
  then show ?thesis by (simp only: uuid_parts)
qed

lemma strings_Split_no_sep: "sep \<notin> set s \<Longrightarrow> strings_Split s sep = [s]"
  by (induction s) auto

lemma strings_Split_append:
  "sep \<notin> set a \<Longrightarrow> strings_Split (a @ sep # rest) sep = a # strings_Split rest sep"
  by (induction a) auto

lemma strconv_ParseBool_FormatBool: "strconv_ParseBool (strconv_FormatBool b) = (b, None)"
  by (simp add: strconv_ParseBool_def strconv_FormatBool_def)

lemma strings_Split_traceParentValue:
  "strings_Split (traceParentValue sc) (CHR ''-'') =
     [''00'', hex_Encode (TraceID sc), fmt_016x (SpanID sc), if Sampled sc then ''01'' else ''00'']"
proof -
  have h: "CHR ''-'' \<notin> set (hex_Encode (TraceID sc))"
    by (rule lower_hex_no_dash) (rule lower_hex_hex_Encode)
  have f: "CHR ''-'' \<notin> set (fmt_016x (SpanID sc))"
    by (rule lower_hex_no_dash) (rule lower_hex_fmt_016x)
  have "strings_Split (traceParentValue sc) (CHR ''-'') =
          ''00'' # strings_Split (hex_Encode (TraceID sc) @ CHR ''-'' #
            fmt_016x (SpanID sc) @ CHR ''-'' # (if Sampled sc then ''01'' else ''00'')) (CHR ''-'')"
    by (simp add: traceParentValue_def traceId_text_hex)
  also have "\<dots> = ''00'' # hex_Encode (TraceID sc) #
      strings_Split (fmt_016x (SpanID sc) @ CHR ''-'' # (if Sampled sc then ''01'' else ''00''))
        (CHR ''-'')"
    by (simp only: strings_Split_append [OF h])
  also have "\<dots> = ''00'' # hex_Encode (TraceID sc) # fmt_016x (SpanID sc) #
      strings_Split (if Sampled sc then ''01'' else ''00'') (CHR ''-'')"
    by (simp only: strings_Split_append [OF f])
  finally show ?thesis by simp
qed

lemma length_traceParentValue:
  "length (TraceID sc) = 16 \<Longrightarrow> length (traceParentValue sc) = 55"
  by (simp add: traceParentValue_def traceId_text_hex length_hex_Encode length_fmt_016x)

lemma traceparent_accepted_traceParentValue:
  assumes "length (TraceID sc) = 16"
  shows "traceparent_accepted (traceParentValue sc)"
    and "traceparent_TraceID (traceParentValue sc) = TraceID sc"
    and "traceparent_SpanID (traceParentValue sc) = SpanID sc"
    and "traceparent_Sampled (traceParentValue sc) = Sampled sc"
  by (simp_all add: traceparent_accepted_def traceparent_TraceID_def traceparent_SpanID_def
      traceparent_Sampled_def strings_Split_traceParentValue length_traceParentValue assms
      length_hex_Encode length_fmt_016x uuid_Parse_hex_Encode strconv_ParseUint16_fmt_016x)

section \<open>The two passes of Extract\<close>

lemma field_names_lower:
  "strings_ToLower traceParentKey = traceParentKey"
  "strings_ToLower fieldNameTraceID = fieldNameTraceID"
  "strings_ToLower fieldNameSpanID = fieldNameSpanID"
  "strings_ToLower fieldNameSampled = fieldNameSampled"
  by (simp_all add: strings_ToLower_def lower_byte_def traceParentKey_def fieldNameTraceID_def
      fieldNameSpanID_def fieldNameSampled_def prefixTracerState_def)

lemma field_names_distinct:
  "fieldNameTraceID \<noteq> fieldNameSpanID" "fieldNameTraceID \<noteq> fieldNameSampled"
  "fieldNameSpanID \<noteq> fieldNameSampled" "fieldNameSpanID \<noteq> fieldNameTraceID"
  "fieldNameSampled \<noteq> fieldNameTraceID" "fieldNameSampled \<noteq> fieldNameSpanID"
  "traceParentKey \<noteq> fieldNameTraceID" "traceParentKey \<noteq> fieldNameSpanID"
  "traceParentKey \<noteq> fieldNameSampled"
  "fieldNameTraceID \<noteq> traceParentKey" "fieldNameSpanID \<noteq> traceParentKey"
  "fieldNameSampled \<noteq> traceParentKey"
  by (simp_all add: traceParentKey_def fieldNameTraceID_def fieldNameSpanID_def
      fieldNameSampled_def prefixTracerState_def)

lemma baggage_key_not_field:
  "prefixBaggage @ key \<noteq> fieldNameTraceID" "prefixBaggage @ key \<noteq> fieldNameSpanID"
  "prefixBaggage @ key \<noteq> fieldNameSampled" "prefixBaggage @ key \<noteq> traceParentKey"
  "fieldNameTraceID \<noteq> prefixBaggage @ key" "fieldNameSpanID \<noteq> prefixBaggage @ key"
  "fieldNameSampled \<noteq> prefixBaggage @ key" "traceParentKey \<noteq> prefixBaggage @ key"
  by (simp_all add: traceParentKey_def fieldNameTraceID_def fieldNameSpanID_def
      fieldNameSampled_def prefixTracerState_def prefixBaggage_def)

lemma HasPrefix_iff: "strings_HasPrefix s pre = (\<exists>rest. s = pre @ rest)"
  by (auto simp: strings_HasPrefix_def) (metis append_take_drop_id)

lemma field_not_baggage:
  "\<not> strings_HasPrefix fieldNameTraceID prefixBaggage"
  "\<not> strings_HasPrefix fieldNameSpanID prefixBaggage"
  "\<not> strings_HasPrefix fieldNameSampled prefixBaggage"
  "\<not> strings_HasPrefix traceParentKey prefixBaggage"
  by (simp_all add: strings_HasPrefix_def traceParentKey_def fieldNameTraceID_def
      fieldNameSpanID_def fieldNameSampled_def prefixTracerState_def prefixBaggage_def)

lemma lookup_field_Nil: "lookup_field [] name = None"
  by (simp add: lookup_field_def)

lemma lookup_field_Cons:
  "lookup_field ((k, v) # c) name =
     (if strings_ToLower k = name then Some v else lookup_field c name)"
  by (simp add: lookup_field_def)

lemma lookup_field_None:
  "lookup_field c name = None \<longleftrightarrow> name \<notin> set (map (\<lambda>(k, v). strings_ToLower k) c)"
  by (simp add: lookup_field_def map_of_eq_None_iff image_image case_prod_beta)

lemma distinct_fields_Cons:
  "distinct_fields ((k, v) # c) =
     (lookup_field c (strings_ToLower k) = None \<and> distinct_fields c)"
  by (simp add: distinct_fields_def lookup_field_None)

lemma Extract_fields_accepted:
  "field_accepted (k, v) \<Longrightarrow> Extract_fields k v st = (None, field_effect (k, v) st)"
  by (simp add: Extract_fields_def field_accepted_def field_effect_def Let_def
      case_prod_beta strings_TrimPrefix_def field_names_distinct)

lemma Extract_fields_rejected:
  "\<not> field_accepted (k, v) \<Longrightarrow> fst (Extract_fields k v st) = Some ErrSpanContextCorrupted"
  by (auto simp: Extract_fields_def field_accepted_def Let_def case_prod_beta
      field_names_distinct split: if_splits)

lemma pass2_accepted:
  "list_all field_accepted c \<Longrightarrow>
   TextMapCarrier_ForeachKey Extract_fields c st = (None, fold field_effect c st)"
  by (induction c arbitrary: st) (auto simp: Extract_fields_accepted)

lemma pass2_rejected:
  "\<not> list_all field_accepted c \<Longrightarrow>
   fst (TextMapCarrier_ForeachKey Extract_fields c st) = Some ErrSpanContextCorrupted"
proof (induction c arbitrary: st)
  case Nil
  then show ?case by simp
next
  case (Cons kv c)
  obtain k v where kv: "kv = (k, v)" by (cases kv)
  show ?case
  proof (cases "field_accepted (k, v)")
    case True
    with Cons.prems kv have "\<not> list_all field_accepted c" by simp
    from Cons.IH [OF this] show ?thesis
      by (simp add: kv Extract_fields_accepted [OF True])
  next
    case False
    from Extract_fields_rejected [OF this, of st] show ?thesis
      by (cases "Extract_fields k v st") (auto simp: kv)
  qed
qed

lemma field_effect_count:
  "requiredFieldCount (field_effect (k, v) st) =
     requiredFieldCount st +
       (if strings_ToLower k = fieldNameTraceID \<or> strings_ToLower k = fieldNameSpanID \<or>
           strings_ToLower k = fieldNameSampled then 1 else 0)"
  by (simp add: field_effect_def)

lemma field_effect_traceID:
  "traceID (field_effect (k, v) st) =
     (if strings_ToLower k = fieldNameTraceID then fst (uuid_Parse v) else traceID st)"
  by (simp add: field_effect_def)

lemma field_effect_spanID:
  "spanID (field_effect (k, v) st) =
     (if strings_ToLower k = fieldNameSpanID then fst (strconv_ParseUint16 v) else spanID st)"
  by (simp add: field_effect_def field_names_distinct)

lemma field_effect_sampled:
  "sampled (field_effect (k, v) st) =
     (if strings_ToLower k = fieldNameSampled then fst (strconv_ParseBool v) else sampled st)"
  by (simp add: field_effect_def field_names_distinct)

lemma field_effect_baggage:
  "map_of (decodedBaggage (field_effect (k, v) st)) key =
     (if strings_ToLower k = prefixBaggage @ key then Some v
      else map_of (decodedBaggage st) key)"
proof (cases "strings_HasPrefix (strings_ToLower k) prefixBaggage")
  case True
  then obtain rest where r: "strings_ToLower k = prefixBaggage @ rest"
    by (auto simp: HasPrefix_iff)
  show ?thesis
    by (simp add: field_effect_def r baggage_key_not_field HasPrefix_iff update_conv')
next
  case False
  then have "strings_ToLower k \<noteq> prefixBaggage @ key"
    by (auto simp: HasPrefix_iff)
  with False show ?thesis
    by (simp add: field_effect_def)
qed

lemma fold_count:
  "distinct_fields c \<Longrightarrow>
   requiredFieldCount (fold field_effect c st) = requiredFieldCount st + int (discrete_count c)"
proof (induction c arbitrary: st)
  case Nil
  then show ?case by (simp add: discrete_count_def lookup_field_Nil)
next
  case (Cons kv c)
  obtain k v where kv: "kv = (k, v)" by (cases kv)
  from Cons.prems have n: "lookup_field c (strings_ToLower k) = None" and d: "distinct_fields c"
    by (simp_all add: kv distinct_fields_Cons)
  show ?case
    using n by (auto simp: kv Cons.IH [OF d] field_effect_count discrete_count_def
        lookup_field_Cons field_names_distinct)
qed

lemma fold_traceID:
  "distinct_fields c \<Longrightarrow>
   traceID (fold field_effect c st) =
     (case lookup_field c fieldNameTraceID of
        Some v \<Rightarrow> fst (uuid_Parse v) | None \<Rightarrow> traceID st)"
proof (induction c arbitrary: st)
  case Nil
  then show ?case by (simp add: lookup_field_Nil)
next
  case (Cons kv c)
  obtain k v where kv: "kv = (k, v)" by (cases kv)
  from Cons.prems have n: "lookup_field c (strings_ToLower k) = None" and d: "distinct_fields c"
    by (simp_all add: kv distinct_fields_Cons)
  show ?case
    using n by (auto simp: kv Cons.IH [OF d] field_effect_traceID lookup_field_Cons split: option.splits)
qed

lemma fold_spanID:
  "distinct_fields c \<Longrightarrow>
   spanID (fold field_effect c st) =
     (case lookup_field c fieldNameSpanID of
        Some v \<Rightarrow> fst (strconv_ParseUint16 v) | None \<Rightarrow> spanID st)"
proof (induction c arbitrary: st)
  case Nil
  then show ?case by (simp add: lookup_field_Nil)
next
  case (Cons kv c)
  obtain k v where kv: "kv = (k, v)" by (cases kv)
  from Cons.prems have n: "lookup_field c (strings_ToLower k) = None" and d: "distinct_fields c"
    by (simp_all add: kv distinct_fields_Cons)
  show ?case
    using n by (auto simp: kv Cons.IH [OF d] field_effect_spanID lookup_field_Cons split: option.splits)
qed

lemma fold_sampled:
  "distinct_fields c \<Longrightarrow>
   sampled (fold field_effect c st) =
     (case lookup_field c fieldNameSampled of
        Some v \<Rightarrow> fst (strconv_ParseBool v) | None \<Rightarrow> sampled st)"
proof (induction c arbitrary: st)
  case Nil
  then show ?case by (simp add: lookup_field_Nil)
next
  case (Cons kv c)
  obtain k v where kv: "kv = (k, v)" by (cases kv)
  from Cons.prems have n: "lookup_field c (strings_ToLower k) = None" and d: "distinct_fields c"
    by (simp_all add: kv distinct_fields_Cons)
  show ?case
    using n by (auto simp: kv Cons.IH [OF d] field_effect_sampled lookup_field_Cons split: option.splits)
qed

lemma fold_baggage:
  "distinct_fields c \<Longrightarrow>
   map_of (decodedBaggage (fold field_effect c st)) key =
     (case lookup_field c (prefixBaggage @ key) of
        Some v \<Rightarrow> Some v | None \<Rightarrow> map_of (decodedBaggage st) key)"
proof (induction c arbitrary: st)
  case Nil
  then show ?case by (simp add: lookup_field_Nil)
next
  case (Cons kv c)
  obtain k v where kv: "kv = (k, v)" by (cases kv)
  from Cons.prems have n: "lookup_field c (strings_ToLower k) = None" and d: "distinct_fields c"
    by (simp_all add: kv distinct_fields_Cons)
  show ?case
    using n by (auto simp: kv Cons.IH [OF d] field_effect_baggage lookup_field_Cons split: option.splits)
qed

lemma lookup_field_member:
  assumes "distinct_fields c" and "(k, v) \<in> set c"
  shows "lookup_field c (strings_ToLower k) = Some v"
proof -
  have "distinct (map fst (map (\<lambda>(k, v). (strings_ToLower k, v)) c))"
    using assms(1) by (simp add: distinct_fields_def comp_def split_def)
  moreover have "(strings_ToLower k, v) \<in> set (map (\<lambda>(k, v). (strings_ToLower k, v)) c)"
    using assms(2) by force
  ultimately show ?thesis
    by (simp add: lookup_field_def)
qed

lemma lookup_field_SomeD:
  "lookup_field c name = Some v \<Longrightarrow> \<exists>k. (k, v) \<in> set c \<and> strings_ToLower k = name"
  by (induction c) (auto simp: lookup_field_Nil lookup_field_Cons split: if_splits)

lemma accepted_iff_wellformed:
  assumes "distinct_fields c"
  shows "list_all field_accepted c = fields_wellformed c"
proof
  assume a: "list_all field_accepted c"
  have "snd (uuid_Parse v) = None" if "lookup_field c fieldNameTraceID = Some v" for v
    using lookup_field_SomeD [OF that] a
    by (auto simp: list_all_iff field_accepted_def)
  moreover have "snd (strconv_ParseUint16 v) = None" if "lookup_field c fieldNameSpanID = Some v" for v
    using lookup_field_SomeD [OF that] a
    by (auto simp: list_all_iff field_accepted_def field_names_distinct)
  moreover have "snd (strconv_ParseBool v) = None" if "lookup_field c fieldNameSampled = Some v" for v
    using lookup_field_SomeD [OF that] a
    by (auto simp: list_all_iff field_accepted_def field_names_distinct)
  ultimately show "fields_wellformed c"
    by (simp add: fields_wellformed_def split: option.splits)
next
  assume w: "fields_wellformed c"
  show "list_all field_accepted c"
    unfolding list_all_iff
  proof
    fix kv assume m: "kv \<in> set c"
    obtain k v where kv: "kv = (k, v)" by (cases kv)
    from lookup_field_member [OF assms] m kv
    have l: "lookup_field c (strings_ToLower k) = Some v" by simp
    show "field_accepted kv"
      using w l by (auto simp: kv field_accepted_def fields_wellformed_def)
  qed
qed

lemma Extract_traceparent_other:
  "strings_ToLower k \<noteq> traceParentKey \<Longrightarrow> Extract_traceparent k v st = (None, st)"
  by (simp add: Extract_traceparent_def Let_def)

lemma Extract_traceparent_key:
  "strings_ToLower k = traceParentKey \<Longrightarrow>
   Extract_traceparent k v st = Extract_traceparent traceParentKey v st"
  by (simp add: Extract_traceparent_def field_names_lower)

lemma Extract_traceparent_accepted:
  assumes "traceparent_accepted v"
  shows "Extract_traceparent traceParentKey v st =
     (None, st\<lparr>traceID := traceparent_TraceID v, spanID := traceparent_SpanID v,
               sampled := traceparent_Sampled v \<or> sampled st,
               requiredFieldCount := requiredFieldCount st + 4\<rparr>)"
proof -
  from assms obtain p0 p1 p2 p3 rest where
    sp: "strings_Split v (CHR ''-'') = p0 # p1 # p2 # p3 # rest"
    by (auto simp: traceparent_accepted_def split: list.splits)
  show ?thesis
    using assms
    by (simp add: Extract_traceparent_def traceparent_accepted_def traceparent_TraceID_def
        traceparent_SpanID_def traceparent_Sampled_def sp field_names_lower Let_def
        case_prod_beta)
qed

lemma Extract_traceparent_invalid:
  assumes "\<not> traceparent_accepted v"
  shows "\<exists>st'. Extract_traceparent traceParentKey v st = (Some ErrSpanContextCorrupted, st') \<and>
           requiredFieldCount st' = requiredFieldCount st \<and> sampled st' = sampled st \<and>
           decodedBaggage st' = decodedBaggage st"
  using assms
  by (auto simp: Extract_traceparent_def traceparent_accepted_def field_names_lower Let_def
      case_prod_beta split: list.splits)

lemma pass1_skip:
  "lookup_field c traceParentKey = None \<Longrightarrow>
   TextMapCarrier_ForeachKey Extract_traceparent c st = (None, st)"
  by (induction c arbitrary: st)
    (auto simp: lookup_field_Cons Extract_traceparent_other split: if_splits)

lemma pass1:
  "distinct_fields c \<Longrightarrow>
   TextMapCarrier_ForeachKey Extract_traceparent c st =
     (case lookup_field c traceParentKey of
        None \<Rightarrow> (None, st)
      | Some v \<Rightarrow> Extract_traceparent traceParentKey v st)"
proof (induction c arbitrary: st)
  case Nil
  then show ?case by (simp add: lookup_field_Nil)
next
  case (Cons kv c)
  obtain k v where kv: "kv = (k, v)" by (cases kv)
  from Cons.prems have n: "lookup_field c (strings_ToLower k) = None" and d: "distinct_fields c"
    by (simp_all add: kv distinct_fields_Cons)
  show ?case
  proof (cases "strings_ToLower k = traceParentKey")
    case True
    with n have "lookup_field c traceParentKey = None" by simp
    then have skip: "TextMapCarrier_ForeachKey Extract_traceparent c st' = (None, st')" for st'
      by (rule pass1_skip)
    show ?thesis
      by (cases "Extract_traceparent traceParentKey v st")
        (auto simp: kv True lookup_field_Cons Extract_traceparent_key [OF True] skip
          split: option.splits)
  next
    case False
    then show ?thesis
      by (simp add: kv lookup_field_Cons Extract_traceparent_other Cons.IH [OF d])
  qed
qed

text \<open>The variables after the first pass.\<close>

lemma pass1_composite_accepted:
  assumes "distinct_fields c" and "composite_accepted c"
  shows "snd (TextMapCarrier_ForeachKey Extract_traceparent c extract_init) =
     extract_init\<lparr>traceID := traceparent_TraceID (the (lookup_field c traceParentKey)),
                  spanID := traceparent_SpanID (the (lookup_field c traceParentKey)),
                  sampled := traceparent_Sampled (the (lookup_field c traceParentKey)),
                  requiredFieldCount := 4\<rparr>"
  using assms(2)
  by (auto simp: pass1 [OF assms(1)] composite_accepted_def Extract_traceparent_accepted extract_init_def
      split: option.splits)

lemma pass1_composite_invalid:
  assumes "distinct_fields c" and "\<not> composite_accepted c"
  shows "requiredFieldCount (snd (TextMapCarrier_ForeachKey Extract_traceparent c extract_init)) = 0"
    and "sampled (snd (TextMapCarrier_ForeachKey Extract_traceparent c extract_init)) = False"
    and "decodedBaggage (snd (TextMapCarrier_ForeachKey Extract_traceparent c extract_init)) = []"
proof -
  let ?st = "snd (TextMapCarrier_ForeachKey Extract_traceparent c extract_init)"
  have "requiredFieldCount ?st = 0 \<and> sampled ?st = False \<and> decodedBaggage ?st = []"
  proof (cases "lookup_field c traceParentKey")
    case None
    then show ?thesis by (simp add: pass1 [OF assms(1)] extract_init_def)
  next
    case (Some v)
    with assms(2) have "\<not> traceparent_accepted v" by (simp add: composite_accepted_def)
    from Extract_traceparent_invalid [OF this, of extract_init] Some show ?thesis
      by (auto simp: pass1 [OF assms(1)] extract_init_def)
  qed
  then show "requiredFieldCount ?st = 0" "sampled ?st = False" "decodedBaggage ?st = []"
    by simp_all
qed

section \<open>The decision of Extract\<close>

lemma enum_distinct_fields:
  assumes "distinct_fields c" and "distinct c'" and "set c' = set c"
  shows "distinct_fields c'"
proof -
  have "inj_on (\<lambda>(k, v). strings_ToLower k) (set c)"
    using assms(1) by (simp add: distinct_fields_def distinct_map)
  with assms(2,3) show ?thesis
    by (simp add: distinct_fields_def distinct_map)
qed

lemma enum_lookup_field:
  assumes "distinct_fields c" and "distinct c'" and "set c' = set c"
  shows "lookup_field c' = lookup_field c"
proof -
  let ?g = "\<lambda>(k, v). (strings_ToLower k, v)"
  have d': "distinct_fields c'" by (rule enum_distinct_fields [OF assms])
  have "distinct (map fst (map ?g c))" "distinct (map fst (map ?g c'))"
    using assms(1) d' by (simp_all add: distinct_fields_def comp_def split_def)
  moreover have "set (map ?g c) = set (map ?g c')"
    using assms(3) by simp
  ultimately have "map_of (map ?g c') = map_of (map ?g c)"
    by (simp add: map_of_inject_set)
  then show ?thesis
    by (intro ext) (simp add: lookup_field_def)
qed

lemma discrete_count_le: "discrete_count c \<le> 3"
  by (simp add: discrete_count_def)

lemma accepted_field_count_eq:
  "fields_wellformed c \<Longrightarrow>
   accepted_field_count c = discrete_count c + (if composite_accepted c then 3 else 0)"
  by (auto simp: accepted_field_count_def discrete_count_def fields_wellformed_def
      split: option.splits)

lemma Extract_passes_decision:
  assumes d: "distinct_fields c"
    and e1: "distinct c1" "set c1 = set c"
    and e2: "distinct c2" "set c2 = set c"
  shows "\<not> fields_wellformed c \<Longrightarrow> Extract_passes c1 c2 = Inl ErrSpanContextCorrupted"
    and "fields_wellformed c \<Longrightarrow> accepted_field_count c = 0 \<Longrightarrow>
           Extract_passes c1 c2 = Inl ErrSpanContextNotFound"
    and "fields_wellformed c \<Longrightarrow> 0 < accepted_field_count c \<Longrightarrow> accepted_field_count c < 3 \<Longrightarrow>
           Extract_passes c1 c2 = Inl ErrSpanContextCorrupted"
    and "fields_wellformed c \<Longrightarrow> 3 \<le> accepted_field_count c \<Longrightarrow>
           \<exists>sc. Extract_passes c1 c2 = Inr sc \<and> TraceID sc = decoded_TraceID c \<and>
             SpanID sc = decoded_SpanID c \<and> Sampled sc = decoded_Sampled c \<and>
             map_of (Baggage sc) = decoded_Baggage c"
proof -
  have d1: "distinct_fields c1" and l1: "lookup_field c1 = lookup_field c"
    by (rule enum_distinct_fields [OF d e1], rule enum_lookup_field [OF d e1])
  have d2: "distinct_fields c2" and l2: "lookup_field c2 = lookup_field c"
    by (rule enum_distinct_fields [OF d e2], rule enum_lookup_field [OF d e2])
  have cv1: "composite_accepted c1 = composite_accepted c"
    by (simp add: composite_accepted_def l1)
  have w2: "fields_wellformed c2 = fields_wellformed c"
    by (simp add: fields_wellformed_def l2)
  have dc2: "discrete_count c2 = discrete_count c"
    by (simp add: discrete_count_def l2)
  define st1 where "st1 = snd (TextMapCarrier_ForeachKey Extract_traceparent c1 extract_init)"
  have ep: "Extract_passes c1 c2 =
      (case TextMapCarrier_ForeachKey Extract_fields c2 st1 of
         (Some err, st2) \<Rightarrow> Inl err
       | (None, st2) \<Rightarrow>
           if requiredFieldCount st2 < 3 then
             (if requiredFieldCount st2 = 0 then Inl ErrSpanContextNotFound
              else Inl ErrSpanContextCorrupted)
           else Inr \<lparr>TraceID = traceID st2, SpanID = spanID st2, Sampled = sampled st2,
                     Baggage = decodedBaggage st2\<rparr>)"
    by (simp add: Extract_passes_def st1_def case_prod_beta tracerStateFieldCount_def)
  show "Extract_passes c1 c2 = Inl ErrSpanContextCorrupted" if "\<not> fields_wellformed c"
  proof -
    from that have "\<not> list_all field_accepted c2"
      by (simp add: accepted_iff_wellformed [OF d2] w2)
    from pass2_rejected [OF this, of st1] show ?thesis
      by (cases "TextMapCarrier_ForeachKey Extract_fields c2 st1") (simp add: ep)
  qed
  define st2 where "st2 = fold field_effect c2 st1"
  have c1: "requiredFieldCount st1 = (if composite_accepted c then 4 else 0)"
    using pass1_composite_accepted [OF d1] pass1_composite_invalid(1) [OF d1]
    by (simp add: st1_def cv1)
  have s1: "sampled st1 =
      (composite_accepted c \<and> traceparent_Sampled (the (lookup_field c traceParentKey)))"
  proof (cases "composite_accepted c")
    case True
    with pass1_composite_accepted [OF d1] show ?thesis
      by (simp add: st1_def cv1 l1)
  next
    case False
    with pass1_composite_invalid(2) [OF d1] show ?thesis
      by (simp add: st1_def cv1)
  qed
  have b1: "decodedBaggage st1 = []"
    using pass1_composite_accepted [OF d1] pass1_composite_invalid(3) [OF d1]
    by (cases "composite_accepted c") (simp_all add: st1_def cv1 extract_init_def)
  have t1: "composite_accepted c \<Longrightarrow>
      traceID st1 = traceparent_TraceID (the (lookup_field c traceParentKey)) \<and>
      spanID st1 = traceparent_SpanID (the (lookup_field c traceParentKey))"
    using pass1_composite_accepted [OF d1] by (simp add: st1_def cv1 l1)
  have cnt: "requiredFieldCount st2 =
      int (discrete_count c) + (if composite_accepted c then 4 else 0)"
    by (simp add: st2_def fold_count [OF d2] dc2 c1)
  have ok: "TextMapCarrier_ForeachKey Extract_fields c2 st1 = (None, st2)"
    if "fields_wellformed c"
    using that by (simp add: st2_def pass2_accepted accepted_iff_wellformed [OF d2] w2)
  show "Extract_passes c1 c2 = Inl ErrSpanContextNotFound"
    if "fields_wellformed c" "accepted_field_count c = 0"
    using that(2)
    by (simp add: ep ok [OF that(1)] cnt accepted_field_count_eq [OF that(1)] split: if_splits)
  show "Extract_passes c1 c2 = Inl ErrSpanContextCorrupted"
    if "fields_wellformed c" "0 < accepted_field_count c" "accepted_field_count c < 3"
    using that(2,3)
    by (simp add: ep ok [OF that(1)] cnt accepted_field_count_eq [OF that(1)] split: if_splits)
  show "\<exists>sc. Extract_passes c1 c2 = Inr sc \<and> TraceID sc = decoded_TraceID c \<and>
             SpanID sc = decoded_SpanID c \<and> Sampled sc = decoded_Sampled c \<and>
             map_of (Baggage sc) = decoded_Baggage c"
    if "fields_wellformed c" "3 \<le> accepted_field_count c"
  proof -
    have big: "\<not> requiredFieldCount st2 < 3"
      using that(2) by (simp add: cnt accepted_field_count_eq [OF that(1)] split: if_splits)
    have need: "composite_accepted c"
      if "lookup_field c fieldNameTraceID = None \<or> lookup_field c fieldNameSpanID = None"
      using that \<open>3 \<le> accepted_field_count c\<close> discrete_count_le [of c]
      by (auto simp: accepted_field_count_eq [OF \<open>fields_wellformed c\<close>] discrete_count_def
          split: if_splits)
    have tr: "traceID st2 = decoded_TraceID c"
      using need t1
      by (auto simp: st2_def fold_traceID [OF d2] l2 decoded_TraceID_def split: option.splits)
    have sp: "spanID st2 = decoded_SpanID c"
      using need t1
      by (auto simp: st2_def fold_spanID [OF d2] l2 decoded_SpanID_def split: option.splits)
    have sa: "sampled st2 = decoded_Sampled c"
      by (simp add: st2_def fold_sampled [OF d2] l2 decoded_Sampled_def s1 split: option.splits)
    have ba: "map_of (decodedBaggage st2) = decoded_Baggage c"
      by (intro ext)
        (simp add: st2_def fold_baggage [OF d2] l2 decoded_Baggage_def b1 split: option.splits)
    show ?thesis
      by (simp add: ep ok [OF that(1)] big tr sp sa ba)
  qed
qed

section \<open>The entries that Inject writes\<close>

lemma update_fresh: "k \<notin> fst ` set al \<Longrightarrow> AList.update k v al = al @ [(k, v)]"
  by (induction al) auto

lemma fold_Set_baggage:
  assumes "distinct (map fst bag)"
    and "\<forall>k \<in> fst ` set bag. prefixBaggage @ k \<notin> fst ` set c0"
  shows "fold (\<lambda>(k, v). TextMapCarrier_Set (prefixBaggage @ k) v) bag c0 =
           c0 @ map (\<lambda>(k, v). (prefixBaggage @ k, v)) bag"
  using assms
proof (induction bag arbitrary: c0)
  case Nil
  then show ?case by simp
next
  case (Cons kv bag)
  obtain k v where kv: "kv = (k, v)" by (cases kv)
  have fresh: "prefixBaggage @ k \<notin> fst ` set c0"
    using Cons.prems(2) by (simp add: kv)
  have d: "distinct (map fst bag)" and nk: "k \<notin> fst ` set bag"
    using Cons.prems(1) by (simp_all add: kv)
  have "\<forall>k' \<in> fst ` set bag. prefixBaggage @ k' \<notin> fst ` set (c0 @ [(prefixBaggage @ k, v)])"
    using Cons.prems(2) nk by (auto simp: kv)
  from Cons.IH [OF d this] show ?case
    by (simp add: kv TextMapCarrier_Set_def update_fresh [OF fresh])
qed

lemma Inject_entries:
  assumes "distinct (map fst (Baggage sc))"
  shows "textMapPropagator_Inject (TracerSpanContext sc) (TextMapCarrier []) =
           (None, TextMapCarrier (injected_entries sc))"
proof -
  let ?c4 = "[(fieldNameTraceID, hex_Encode (TraceID sc)),
      (fieldNameSpanID, strconv_FormatUint16 (SpanID sc)),
      (fieldNameSampled, strconv_FormatBool (Sampled sc)),
      (traceParentKey, traceParentValue sc)]"
  have c4: "TextMapCarrier_Set traceParentKey (traceParentValue sc)
      (TextMapCarrier_Set fieldNameSampled (strconv_FormatBool (Sampled sc))
        (TextMapCarrier_Set fieldNameSpanID (strconv_FormatUint16 (SpanID sc))
          (TextMapCarrier_Set fieldNameTraceID (traceId_text sc) []))) = ?c4"
    by (simp add: TextMapCarrier_Set_def traceId_text_hex field_names_distinct)
  have "\<forall>k \<in> fst ` set (Baggage sc). prefixBaggage @ k \<notin> fst ` set ?c4"
    by (simp add: baggage_key_not_field)
  from fold_Set_baggage [OF assms this] show ?thesis
    by (simp add: textMapPropagator_Inject_def Let_def c4 injected_entries_def)
qed

text \<open>
  C6, as amended. For every valid span context, \<open>Inject\<close> into an empty carrier returns no
  error and writes exactly these entries, once each: the trace identifier as 32 lower-case
  hexadecimal digits (its \<open>String()\<close> without the dashes) under \<open>ot-tracer-traceid\<close>, the
  span identifier in lower-case hexadecimal under \<open>ot-tracer-spanid\<close>, \<open>true\<close> or \<open>false\<close>
  under \<open>ot-tracer-sampled\<close>, the composite value \<open>00-trace-span-flag\<close> under
  \<open>traceparent\<close>, with the span identifier padded to 16 digits and the flag \<open>01\<close> or \<open>00\<close>,
  and for every baggage entry \<open>(k, v)\<close> the value \<open>v\<close> under \<open>ot-baggage-\<close> followed by \<open>k\<close>
  as it is, not lower-cased.
\<close>

theorem Inject_writes_exactly:
  assumes "valid_SpanContext sc"
  shows "textMapPropagator_Inject (TracerSpanContext sc) (TextMapCarrier []) =
           (None, TextMapCarrier
              ([(''ot-tracer-traceid'', hex_Encode (TraceID sc)),
                (''ot-tracer-spanid'', strconv_FormatUint16 (SpanID sc)),
                (''ot-tracer-sampled'', if Sampled sc then ''true'' else ''false''),
                (''traceparent'',
                   ''00-'' @ hex_Encode (TraceID sc) @ ''-'' @ fmt_016x (SpanID sc) @ ''-'' @
                   (if Sampled sc then ''01'' else ''00''))] @
               map (\<lambda>(k, v). (''ot-baggage-'' @ k, v)) (Baggage sc))) \<and>
         hex_Encode (TraceID sc) = strings_Replace (uuid_String (TraceID sc)) (CHR ''-'') [] \<and>
         length (hex_Encode (TraceID sc)) = 32 \<and> lower_hex (hex_Encode (TraceID sc)) \<and>
         uuid_Parse (hex_Encode (TraceID sc)) = (TraceID sc, None) \<and>
         lower_hex (strconv_FormatUint16 (SpanID sc)) \<and>
         strconv_ParseUint16 (strconv_FormatUint16 (SpanID sc)) = (SpanID sc, None) \<and>
         length (fmt_016x (SpanID sc)) = 16 \<and> lower_hex (fmt_016x (SpanID sc)) \<and>
         strconv_ParseUint16 (fmt_016x (SpanID sc)) = (SpanID sc, None)"
proof -
  from assms have l: "length (TraceID sc) = 16" and d: "distinct (map fst (Baggage sc))"
    by (simp_all add: valid_SpanContext_def)
  have ie: "injected_entries sc =
      [(''ot-tracer-traceid'', hex_Encode (TraceID sc)),
       (''ot-tracer-spanid'', strconv_FormatUint16 (SpanID sc)),
       (''ot-tracer-sampled'', if Sampled sc then ''true'' else ''false''),
       (''traceparent'',
          ''00-'' @ hex_Encode (TraceID sc) @ ''-'' @ fmt_016x (SpanID sc) @ ''-'' @
          (if Sampled sc then ''01'' else ''00''))] @
      map (\<lambda>(k, v). (''ot-baggage-'' @ k, v)) (Baggage sc)"
    by (simp add: injected_entries_def fieldNameTraceID_def fieldNameSpanID_def
        fieldNameSampled_def traceParentKey_def prefixTracerState_def prefixBaggage_def
        strconv_FormatBool_def traceParentValue_def traceId_text_hex)
  show ?thesis
  proof (intro conjI)
    show "textMapPropagator_Inject (TracerSpanContext sc) (TextMapCarrier []) =
           (None, TextMapCarrier
              ([(''ot-tracer-traceid'', hex_Encode (TraceID sc)),
                (''ot-tracer-spanid'', strconv_FormatUint16 (SpanID sc)),
                (''ot-tracer-sampled'', if Sampled sc then ''true'' else ''false''),
                (''traceparent'',
                   ''00-'' @ hex_Encode (TraceID sc) @ ''-'' @ fmt_016x (SpanID sc) @ ''-'' @
                   (if Sampled sc then ''01'' else ''00''))] @
               map (\<lambda>(k, v). (''ot-baggage-'' @ k, v)) (Baggage sc)))"
      using Inject_entries [OF d] by (simp only: ie)
    show "hex_Encode (TraceID sc) = strings_Replace (uuid_String (TraceID sc)) (CHR ''-'') []"
      using traceId_text_hex [of sc] by (simp add: traceId_text_def)
    show "length (hex_Encode (TraceID sc)) = 32"
      by (simp add: length_hex_Encode l)
    show "lower_hex (hex_Encode (TraceID sc))"
      by (rule lower_hex_hex_Encode)
    show "uuid_Parse (hex_Encode (TraceID sc)) = (TraceID sc, None)"
      by (rule uuid_Parse_hex_Encode [OF l])
    show "lower_hex (strconv_FormatUint16 (SpanID sc))"
      by (simp add: strconv_FormatUint16_def lower_hex_formatBits)
    show "strconv_ParseUint16 (strconv_FormatUint16 (SpanID sc)) = (SpanID sc, None)"
      by (rule strconv_ParseUint16_FormatUint16)
    show "length (fmt_016x (SpanID sc)) = 16"
      by (rule length_fmt_016x)
    show "lower_hex (fmt_016x (SpanID sc))"
      by (rule lower_hex_fmt_016x)
    show "strconv_ParseUint16 (fmt_016x (SpanID sc)) = (SpanID sc, None)"
      by (rule strconv_ParseUint16_fmt_016x)
  qed
qed

theorem Inject_writes_exactly_witness:
  "valid_SpanContext example_context \<and>
   textMapPropagator_Inject (TracerSpanContext example_context) (TextMapCarrier []) =
     (None, TextMapCarrier
        [(''ot-tracer-traceid'', ''000102030405060708090a0b0c0d0e0f''),
         (''ot-tracer-spanid'', ''ff''),
         (''ot-tracer-sampled'', ''true''),
         (''traceparent'', ''00-000102030405060708090a0b0c0d0e0f-00000000000000ff-01''),
         (''ot-baggage-user'', ''42'')])"
proof -
  have v: "valid_SpanContext example_context"
    by (simp add: valid_SpanContext_def example_context_def)
  have h: "hex_Encode (TraceID example_context) = ''000102030405060708090a0b0c0d0e0f''"
    by code_simp
  have f: "strconv_FormatUint16 (SpanID example_context) = ''ff''"
    by code_simp
  have p: "fmt_016x (SpanID example_context) = ''00000000000000ff''"
    by code_simp
  have s: "Sampled example_context" "Baggage example_context = [(''user'', ''42'')]"
    by (simp_all add: example_context_def)
  from Inject_writes_exactly [OF v] v show ?thesis
    by (simp add: h f p s)
qed

text \<open>
  C6 as stated fails for a baggage key with an upper-case letter: the carrier has no entry
  under the lower-cased key, and has the value under the key as it is.
\<close>

theorem Inject_keeps_baggage_key_case:
  "map_of (text_entries (snd (textMapPropagator_Inject
      (TracerSpanContext
         \<lparr>TraceID = [0, 1, 2, 3, 4, 5, 6, 7, 8, 9, 10, 11, 12, 13, 14, 15], SpanID = 255,
          Sampled = True, Baggage = [(''K'', ''v'')]\<rparr>)
      (TextMapCarrier []))))
     (''ot-baggage-'' @ strings_ToLower ''K'') = None \<and>
   map_of (text_entries (snd (textMapPropagator_Inject
      (TracerSpanContext
         \<lparr>TraceID = [0, 1, 2, 3, 4, 5, 6, 7, 8, 9, 10, 11, 12, 13, 14, 15], SpanID = 255,
          Sampled = True, Baggage = [(''K'', ''v'')]\<rparr>)
      (TextMapCarrier []))))
     (''ot-baggage-'' @ ''K'') = Some ''v''"
  by code_simp


section \<open>Extract after Inject\<close>

lemma ToLower_no_upper: "\<not> has_upper s \<Longrightarrow> strings_ToLower s = s"
  by (induction s) (auto simp: has_upper_def strings_ToLower_def lower_byte_def Let_def)

lemma ToLower_baggage_key:
  "\<not> has_upper k \<Longrightarrow> strings_ToLower (prefixBaggage @ k) = prefixBaggage @ k"
  using ToLower_no_upper [of k]
  by (simp add: strings_ToLower_def lower_byte_def prefixBaggage_def)

lemma lookup_field_lower:
  assumes "list_all (\<lambda>(k, v). strings_ToLower k = k) c"
  shows "lookup_field c = map_of c" and "distinct_fields c = distinct (map fst c)"
proof -
  have "map (\<lambda>(k, v). (strings_ToLower k, v)) c = c"
    using assms by (induction c) auto
  then show "lookup_field c = map_of c"
    by (intro ext) (simp add: lookup_field_def)
  have "map (\<lambda>(k, v). strings_ToLower k) c = map fst c"
    using assms by (induction c) auto
  then show "distinct_fields c = distinct (map fst c)"
    by (simp only: distinct_fields_def)
qed

lemma map_of_baggage_entries:
  "map_of (map (\<lambda>(k, v). (prefixBaggage @ k, v)) bag) (prefixBaggage @ key) = map_of bag key"
  by (induction bag) auto

lemma map_of_baggage_entries_other:
  "\<not> strings_HasPrefix name prefixBaggage \<Longrightarrow>
   map_of (map (\<lambda>(k, v). (prefixBaggage @ k, v)) bag) name = None"
  by (induction bag) (auto simp: HasPrefix_iff)

lemma distinct_baggage_entries:
  "distinct (map fst bag) \<Longrightarrow> distinct (map fst (map (\<lambda>(k, v). (prefixBaggage @ k, v)) bag))"
  by (induction bag) (auto simp: image_iff)

lemma baggage_entries_not_field:
  "name = fieldNameTraceID \<or> name = fieldNameSpanID \<or> name = fieldNameSampled \<or>
   name = traceParentKey \<Longrightarrow>
   name \<notin> fst ` set (map (\<lambda>(k, v). (prefixBaggage @ k, v)) bag)"
  by (auto simp: baggage_key_not_field)

lemma filter_baggage_entries:
  "filter (\<lambda>(k, v). k \<noteq> traceParentKey) (map (\<lambda>(k, v). (prefixBaggage @ k, v)) bag) =
     map (\<lambda>(k, v). (prefixBaggage @ k, v)) bag"
  "filter (\<lambda>(k, v). k \<noteq> fieldNameTraceID \<and> k \<noteq> fieldNameSpanID \<and> k \<noteq> fieldNameSampled)
     (map (\<lambda>(k, v). (prefixBaggage @ k, v)) bag) =
     map (\<lambda>(k, v). (prefixBaggage @ k, v)) bag"
  by (induction bag) (auto simp: baggage_key_not_field)

lemma lower_baggage_entries:
  "lower_case_keys bag \<Longrightarrow>
   list_all (\<lambda>(k, v). strings_ToLower k = k) (map (\<lambda>(k, v). (prefixBaggage @ k, v)) bag)"
  by (induction bag) (auto simp: lower_case_keys_def ToLower_baggage_key)

lemma injected_fields:
  assumes v: "valid_SpanContext sc" and lk: "lower_case_keys (Baggage sc)"
    and c: "c = injected_entries sc \<or> c = discrete_only (injected_entries sc) \<or>
            c = composite_only (injected_entries sc)"
  shows "distinct_fields c" and "fields_wellformed c" and "3 \<le> accepted_field_count c"
    and "decoded_TraceID c = TraceID sc" and "decoded_SpanID c = SpanID sc"
    and "decoded_Sampled c = Sampled sc" and "decoded_Baggage c = map_of (Baggage sc)"
proof -
  let ?bag = "map (\<lambda>(k, v). (prefixBaggage @ k, v)) (Baggage sc)"
  let ?tid = "(fieldNameTraceID, hex_Encode (TraceID sc))"
  let ?sid = "(fieldNameSpanID, strconv_FormatUint16 (SpanID sc))"
  let ?smp = "(fieldNameSampled, strconv_FormatBool (Sampled sc))"
  let ?tp = "(traceParentKey, traceParentValue sc)"
  from v have l: "length (TraceID sc) = 16" and d: "distinct (map fst (Baggage sc))"
    by (simp_all add: valid_SpanContext_def)
  have forms: "c = ?tid # ?sid # ?smp # ?tp # ?bag \<or> c = ?tid # ?sid # ?smp # ?bag \<or>
      c = ?tp # ?bag"
    using c
    by (auto simp: injected_entries_def discrete_only_def composite_only_def
        filter_baggage_entries field_names_distinct)
  note lb = lookup_field_lower [OF lower_baggage_entries [OF lk]]
  note lf = lookup_field_Cons field_names_lower lb(1)
  have nb: "map_of ?bag fieldNameTraceID = None" "map_of ?bag fieldNameSpanID = None"
    "map_of ?bag fieldNameSampled = None" "map_of ?bag traceParentKey = None"
    by (simp_all add: map_of_baggage_entries_other field_not_baggage)
  show "distinct_fields c"
    using forms distinct_baggage_entries [OF d]
    by (auto simp: distinct_fields_Cons lf lb(2) nb field_names_distinct)
  have tpv: "traceparent_accepted (traceParentValue sc)"
    by (rule traceparent_accepted_traceParentValue(1) [OF l])
  show "fields_wellformed c"
    using forms
    by (auto simp: fields_wellformed_def lf nb field_names_distinct uuid_Parse_hex_Encode l
        strconv_ParseUint16_FormatUint16 strconv_ParseBool_FormatBool)
  show "3 \<le> accepted_field_count c"
    using forms
    by (auto simp: accepted_field_count_def composite_accepted_def lf nb field_names_distinct
        uuid_Parse_hex_Encode l strconv_ParseUint16_FormatUint16 strconv_ParseBool_FormatBool tpv)
  show "decoded_TraceID c = TraceID sc"
    using forms
    by (auto simp: decoded_TraceID_def lf nb field_names_distinct uuid_Parse_hex_Encode l
        traceparent_accepted_traceParentValue)
  show "decoded_SpanID c = SpanID sc"
    using forms
    by (auto simp: decoded_SpanID_def lf nb field_names_distinct
        strconv_ParseUint16_FormatUint16 l traceparent_accepted_traceParentValue)
  show "decoded_Sampled c = Sampled sc"
    using forms
    by (auto simp: decoded_Sampled_def composite_accepted_def lf nb field_names_distinct
        strconv_ParseBool_FormatBool l traceparent_accepted_traceParentValue)
  show "decoded_Baggage c = map_of (Baggage sc)"
    using forms
    by (intro ext) (auto simp: decoded_Baggage_def lf baggage_key_not_field map_of_baggage_entries)
qed

section \<open>The round trip of the text-map propagator\<close>

lemma enumeration_id: "distinct c \<Longrightarrow> enumeration (\<lambda>c. c) c"
  by (simp add: enumeration_def)

lemma enumeration_rev: "distinct c \<Longrightarrow> enumeration rev c"
  by (simp add: enumeration_def)

text \<open>
  C1, as amended. For every valid span context whose baggage keys are ASCII without
  upper-case letters: \<open>Inject\<close> into an empty carrier returns no error, and \<open>Extract\<close> from
  the carrier it wrote, from that carrier without the composite field, and from that
  carrier without the three discrete fields, in whatever order the two passes visit the
  entries, returns a span context with the same trace identifier, span identifier and
  sampled flag, and with the same baggage.
\<close>

theorem text_roundtrip:
  assumes "valid_SpanContext sc" and "lower_case_keys (Baggage sc)"
    and "textMapPropagator_Inject (TracerSpanContext sc) (TextMapCarrier []) =
           (err, TextMapCarrier wrote)"
    and "c = wrote \<or> c = discrete_only wrote \<or> c = composite_only wrote"
    and "enumeration visit1 c" and "enumeration visit2 c"
  shows "err = None \<and>
         (\<exists>sc'. textMapPropagator_Extract visit1 visit2 (TextMapCarrier c) = Inr sc' \<and>
            TraceID sc' = TraceID sc \<and> SpanID sc' = SpanID sc \<and> Sampled sc' = Sampled sc \<and>
            map_of (Baggage sc') = map_of (Baggage sc))"
proof -
  from assms(1) have d: "distinct (map fst (Baggage sc))"
    by (simp add: valid_SpanContext_def)
  from Inject_entries [OF d] assms(3) have e: "err = None" and w: "wrote = injected_entries sc"
    by simp_all
  from assms(4) have c: "c = injected_entries sc \<or> c = discrete_only (injected_entries sc) \<or>
      c = composite_only (injected_entries sc)"
    by (simp add: w)
  note f = injected_fields [OF assms(1,2) c]
  from assms(5,6) have e1: "distinct (visit1 c)" "set (visit1 c) = set c"
    and e2: "distinct (visit2 c)" "set (visit2 c) = set c"
    by (simp_all add: enumeration_def)
  from Extract_passes_decision(4) [OF f(1) e1 e2 f(2,3)] e show ?thesis
    by (simp add: textMapPropagator_Extract_def f)
qed

theorem text_roundtrip_witness:
  "valid_SpanContext example_context \<and> lower_case_keys (Baggage example_context) \<and>
   textMapPropagator_Inject (TracerSpanContext example_context) (TextMapCarrier []) =
     (None, TextMapCarrier (injected_entries example_context)) \<and>
   enumeration (\<lambda>c. c) (composite_only (injected_entries example_context)) \<and>
   enumeration rev (composite_only (injected_entries example_context)) \<and>
   (\<exists>sc'. textMapPropagator_Extract (\<lambda>c. c) rev
            (TextMapCarrier (composite_only (injected_entries example_context))) = Inr sc' \<and>
          TraceID sc' = TraceID example_context \<and> SpanID sc' = SpanID example_context \<and>
          Sampled sc' = Sampled example_context \<and>
          map_of (Baggage sc') = map_of (Baggage example_context))"
proof -
  have v: "valid_SpanContext example_context"
    by (simp add: valid_SpanContext_def example_context_def)
  have l: "lower_case_keys (Baggage example_context)"
    by code_simp
  have i: "textMapPropagator_Inject (TracerSpanContext example_context) (TextMapCarrier []) =
     (None, TextMapCarrier (injected_entries example_context))"
    by (rule Inject_entries) (simp add: example_context_def)
  have "distinct (composite_only (injected_entries example_context))"
    by code_simp
  then have e1: "enumeration (\<lambda>c. c) (composite_only (injected_entries example_context))"
    and e2: "enumeration rev (composite_only (injected_entries example_context))"
    by (rule enumeration_id, rule enumeration_rev)
  from text_roundtrip [OF v l i _ e1 e2] v l i e1 e2 show ?thesis
    by simp
qed

text \<open>
  C1 as stated fails for a baggage key with an upper-case letter: \<open>Inject\<close> writes the key
  as it is, \<open>Extract\<close> lower-cases it, and the baggage that comes back has the key \<open>k\<close>
  where the context had \<open>K\<close>.
\<close>

theorem text_roundtrip_upper_case_key:
  "textMapPropagator_Extract (\<lambda>c. c) (\<lambda>c. c)
     (snd (textMapPropagator_Inject
        (TracerSpanContext
           \<lparr>TraceID = [0, 1, 2, 3, 4, 5, 6, 7, 8, 9, 10, 11, 12, 13, 14, 15], SpanID = 255,
            Sampled = True, Baggage = [(''K'', ''v'')]\<rparr>)
        (TextMapCarrier []))) =
     Inr \<lparr>TraceID = [0, 1, 2, 3, 4, 5, 6, 7, 8, 9, 10, 11, 12, 13, 14, 15], SpanID = 255,
          Sampled = True, Baggage = [(''k'', ''v'')]\<rparr> \<and>
   map_of [(''k'', ''v'')] ''K'' = None \<and> map_of [(''K'', ''v'')] ''K'' = Some ''v''"
  by code_simp

section \<open>One required field under several spellings\<close>

text \<open>
  C3, at a carrier that holds the trace identifier under three keys that differ only in
  the case of their letters, and no other entry. One of the three required fields is
  present: the carrier has no span identifier, no sampled flag and no composite field, and
  with one of the three entries alone \<open>Extract\<close> returns \<open>ErrSpanContextCorrupted\<close>. The
  counter of the second closure goes up once for each entry, so it reaches the threshold,
  and \<open>Extract\<close> returns a span context with the span identifier 0 and the sampled flag
  \<open>false\<close>, which no entry of the carrier holds.
\<close>

theorem repeated_field_reaches_threshold:
  "textMapPropagator_Extract (\<lambda>c. c) (\<lambda>c. c)
     (TextMapCarrier [(''ot-tracer-traceid'', ''000102030405060708090a0b0c0d0e0f'')]) =
     Inl ErrSpanContextCorrupted \<and>
   lookup_field
     [(''ot-tracer-traceid'', ''000102030405060708090a0b0c0d0e0f''),
      (''Ot-Tracer-Traceid'', ''000102030405060708090a0b0c0d0e0f''),
      (''OT-TRACER-TRACEID'', ''000102030405060708090a0b0c0d0e0f'')] fieldNameSpanID = None \<and>
   lookup_field
     [(''ot-tracer-traceid'', ''000102030405060708090a0b0c0d0e0f''),
      (''Ot-Tracer-Traceid'', ''000102030405060708090a0b0c0d0e0f''),
      (''OT-TRACER-TRACEID'', ''000102030405060708090a0b0c0d0e0f'')] fieldNameSampled = None \<and>
   lookup_field
     [(''ot-tracer-traceid'', ''000102030405060708090a0b0c0d0e0f''),
      (''Ot-Tracer-Traceid'', ''000102030405060708090a0b0c0d0e0f''),
      (''OT-TRACER-TRACEID'', ''000102030405060708090a0b0c0d0e0f'')] traceParentKey = None \<and>
   textMapPropagator_Extract (\<lambda>c. c) (\<lambda>c. c)
     (TextMapCarrier
        [(''ot-tracer-traceid'', ''000102030405060708090a0b0c0d0e0f''),
         (''Ot-Tracer-Traceid'', ''000102030405060708090a0b0c0d0e0f''),
         (''OT-TRACER-TRACEID'', ''000102030405060708090a0b0c0d0e0f'')]) =
     Inr \<lparr>TraceID = [0, 1, 2, 3, 4, 5, 6, 7, 8, 9, 10, 11, 12, 13, 14, 15], SpanID = 0,
          Sampled = False, Baggage = []\<rparr>"
  by code_simp


section \<open>The binary round trip\<close>

subsection \<open>Big-endian integers\<close>




lemma BigEndian_Uint32_PutUint32: "BigEndian_Uint32 (BigEndian_PutUint32 v) = v"
proof -
  have "(ucast (ucast v :: byte) OR push_bit 8 (ucast (ucast (drop_bit 8 v) :: byte)) OR
         push_bit 16 (ucast (ucast (drop_bit 16 v) :: byte)) OR
         push_bit 24 (ucast (ucast (drop_bit 24 v) :: byte)) :: uint32) = v"
  proof (rule bit_word_eqI)
    fix n assume "n < LENGTH(32)"
    then have n: "n < 32" by simp
    consider "n < 8" | "8 \<le> n" "n < 16" | "16 \<le> n" "n < 24" | "24 \<le> n"
      by linarith
    then show "bit (ucast (ucast v :: byte) OR push_bit 8 (ucast (ucast (drop_bit 8 v) :: byte)) OR
         push_bit 16 (ucast (ucast (drop_bit 16 v) :: byte)) OR
         push_bit 24 (ucast (ucast (drop_bit 24 v) :: byte)) :: uint32) n = bit v n"
      using n by cases (auto simp: bit_simps)
  qed
  then show ?thesis
    by (simp add: BigEndian_Uint32_def BigEndian_PutUint32_def)
qed


subsection \<open>The frame: length prefix and payload\<close>

lemma length_BigEndian_PutUint32: "length (BigEndian_PutUint32 v) = 4"
  by (simp add: BigEndian_PutUint32_def)

lemma unat_length_uint32:
  assumes "n < 2 ^ 32"
  shows "unat (word_of_nat n :: uint32) = n"
  using assms by (simp add: unsigned_of_nat take_bit_nat_eq_self)

lemma io_ReadFull_prefix:
  assumes "length p = 4"
  shows "io_ReadFull 4 (bytes_Buffer (p @ rest)) = ((p, None), bytes_Buffer rest)"
proof (cases "rest = []")
  case True
  with assms have p: "p \<noteq> []" by auto
  have "ReadAtLeast_loop 4 [] [(p, None)] = ((p, None), [])"
    using assms by (simp add: ReadAtLeast_loop.simps)
  with True p assms show ?thesis
    by (simp add: io_ReadFull_def bytes_Buffer_def)
next
  case False
  have "ReadAtLeast_loop 4 [] [(p @ rest, None)] = ((p, None), [(rest, None)])"
    using assms False by (simp add: ReadAtLeast_loop.simps)
  with False assms show ?thesis
    by (simp add: io_ReadFull_def bytes_Buffer_def)
qed


lemma binary_Read_uint32_prefix:
  "binary_Read_uint32 (bytes_Buffer (BigEndian_PutUint32 v @ rest)) = (Inr v, bytes_Buffer rest)"
  by (simp add: binary_Read_uint32_def io_ReadFull_prefix length_BigEndian_PutUint32
      BigEndian_Uint32_PutUint32)


lemma length_BigEndian_PutUint64: "length (BigEndian_PutUint64 v) = 8"
  by (simp add: BigEndian_PutUint64_def)





section \<open>A short read of the payload goes undetected\<close>

lemma io_Read_short:
  assumes "d \<noteq> []" and "length d \<le> n"
  shows "io_Read n (bytes_Buffer d) = ((d, None), [])"
  using assms by (simp add: bytes_Buffer_def)

text \<open>
  C5. \<open>Extract\<close> reads the payload with one call \<open>carrier.Read(buf)\<close> and tests \<open>n\<close> only
  when the call returned an error. A \<open>bytes.Buffer\<close> that holds the length prefix \<open>n\<close> and
  then fewer than \<open>n\<close> bytes of payload, but at least one, answers the call with these bytes
  and no error. \<open>Extract\<close> then hands the bytes, followed by the zero bytes that \<open>make\<close>
  left in the buffer, to \<open>proto.Unmarshal\<close>, and whenever \<open>proto.Unmarshal\<close> decodes them
  \<open>Extract\<close> returns the decoded span context and no error: the truncated payload is
  accepted.
\<close>

theorem short_read_is_not_detected:
  assumes "d \<noteq> []" and "length d < n" and "n < 2 ^ 32"
    and "proto_Unmarshal (d @ replicate (n - length d) 0) = Inr ctx"
  shows "binaryPropagator_Extract proto_Unmarshal
           (ReaderCarrier (bytes_Buffer (BigEndian_PutUint32 (word_of_nat n) @ d))) =
         (Inr \<lparr>TraceID = BigEndian_PutUint64 (TraceIdHi ctx) @ BigEndian_PutUint64 (TraceIdLo ctx),
               SpanID = SpanId ctx, Sampled = wire_Sampled ctx, Baggage = BaggageItems ctx\<rparr>,
          ReaderCarrier [])"
  using assms
  by (simp add: binaryPropagator_Extract_def binary_Read_uint32_prefix unat_length_uint32
      io_Read_short uuid_FromBytes_def length_BigEndian_PutUint64 Let_def)

text \<open>
  The prefix says 50 bytes and 10 are there: the tag of field 15, which the message does
  not have, with wire type 2, the length 48, and 8 bytes. The unmarshaler decodes, as
  protobuf does, a buffer that is one such field, to the message with no field set, and
  rejects the 10 bytes by themselves.
\<close>

theorem short_read_is_not_detected_witness:
  "(\<lambda>b. if b \<noteq> [] \<and> b ! 0 = 122 \<and> length b = 2 + unat (b ! 1)
         then Inr \<lparr>TraceIdHi = 0, TraceIdLo = 0, SpanId = 0, wire_Sampled = False,
                    BaggageItems = []\<rparr>
         else Inl ErrUnexpectedEOF) ([122, 48, 1, 2, 3, 4, 5, 6, 7, 8] :: byte list) =
     (Inl ErrUnexpectedEOF :: error + TracerState) \<and>
   binaryPropagator_Extract
     (\<lambda>b. if b \<noteq> [] \<and> b ! 0 = 122 \<and> length b = 2 + unat (b ! 1)
         then Inr \<lparr>TraceIdHi = 0, TraceIdLo = 0, SpanId = 0, wire_Sampled = False,
                    BaggageItems = []\<rparr>
         else Inl ErrUnexpectedEOF)
     (ReaderCarrier (bytes_Buffer [0, 0, 0, 50, 122, 48, 1, 2, 3, 4, 5, 6, 7, 8])) =
   (Inr \<lparr>TraceID = [0, 0, 0, 0, 0, 0, 0, 0, 0, 0, 0, 0, 0, 0, 0, 0], SpanID = 0,
         Sampled = False, Baggage = []\<rparr>,
    ReaderCarrier [])"
proof -
  let ?U = "\<lambda>b :: byte list. if b \<noteq> [] \<and> b ! 0 = 122 \<and> length b = 2 + unat (b ! 1)
         then Inr \<lparr>TraceIdHi = 0, TraceIdLo = 0, SpanId = 0, wire_Sampled = False,
                    BaggageItems = []\<rparr>
         else (Inl ErrUnexpectedEOF :: error + TracerState)"
  let ?d = "[122, 48, 1, 2, 3, 4, 5, 6, 7, 8] :: byte list"
  have u: "?U (?d @ replicate (50 - length ?d) 0) =
             Inr \<lparr>TraceIdHi = 0, TraceIdLo = 0, SpanId = 0, wire_Sampled = False,
                  BaggageItems = []\<rparr>"
    by simp
  have p: "BigEndian_PutUint32 50 = [0, 0, 0, 50]"
    by (simp add: BigEndian_PutUint32_def)
  have z: "BigEndian_PutUint64 0 = [0, 0, 0, 0, 0, 0, 0, 0]"
    by (simp add: BigEndian_PutUint64_def)
  from short_read_is_not_detected [of ?d 50 ?U, OF _ _ _ u] show ?thesis
    by (simp add: p z)
qed


section \<open>The identifier generator never fails\<close>


section \<open>Testing mode and the flush frequency\<close>

text \<open>
  C8. \<open>SetTestingMode(true)\<close> records the mode and changes the recorder's flush frequency
  to the testing-mode frequency, which is one second; \<open>SetTestingMode(false)\<close> changes it to
  the normal-mode frequency, which is one minute (durations in nanoseconds).
\<close>

theorem SetTestingMode_changes_flush_frequency:
  "recorder (SetTestingMode ChangeFlushFrequency True a) =
     ChangeFlushFrequency testingModeFrequency (recorder a) \<and>
   testingModeFrequency = 1000000000 \<and>
   recorder (SetTestingMode ChangeFlushFrequency False a) =
     ChangeFlushFrequency nonTestingModeFrequency (recorder a) \<and>
   nonTestingModeFrequency = 60 * 1000000000 \<and>
   testingMode (SetTestingMode ChangeFlushFrequency enabled a) = enabled"
  by (simp add: SetTestingMode_def Let_def testingModeFrequency_def nonTestingModeFrequency_def
      time_Second_def time_Minute_def)

section \<open>The agent's tracer samples every trace\<close>

lemma NewAgent_tracer:
  assumes "NewAgent h ChangeFlushFrequency opts = Returned (Inr agent)"
  shows "\<exists>t. tracer agent = Some t \<and> (\<forall>traceID. ShouldSample (options t) traceID)"
  using assms
  by (auto simp: NewAgent_def NewWithOptions_def Let_def split: sum.splits option.splits)

lemma span_of_sampled:
  assumes "span_of t sc" and "\<forall>traceID. ShouldSample (options t) traceID"
  shows "sc_Sampled sc"
  using assms by (induction rule: span_of.induct) (simp_all add: StartSpan_def)

text \<open>
  C9. Every tracer that \<open>NewAgent\<close> constructs has a sampling predicate that is true of
  every trace identifier, so every root span started through that tracer, and every
  descendant of such a span, has \<open>Sampled = true\<close>.
\<close>

theorem NewAgent_samples_every_span:
  assumes "NewAgent h ChangeFlushFrequency opts = Returned (Inr agent)"
  shows "\<exists>t. tracer agent = Some t \<and> (\<forall>traceID. ShouldSample (options t) traceID) \<and>
             (\<forall>sc. span_of t sc \<longrightarrow> sc_Sampled sc)"
proof -
  from NewAgent_tracer [OF assms] obtain t where
    t: "tracer agent = Some t" and all: "\<forall>traceID. ShouldSample (options t) traceID"
    by blast
  have "\<forall>sc. span_of t sc \<longrightarrow> sc_Sampled sc"
    using span_of_sampled all by blast
  with t all show ?thesis by blast
qed

theorem NewAgent_samples_every_span_witness:
  "\<exists>agent t.
     NewAgent plain_host (\<lambda>d r. r) [WithApiKey ''key''] = Returned (Inr agent) \<and>
     tracer agent = Some t \<and>
     sc_Sampled (StartSpan t (Some (StartSpan t None (5 :: uint64) 1)) 6 2)"
proof -
  obtain agent where
    a: "NewAgent plain_host (\<lambda>d r. r) [WithApiKey ''key''] =
          Returned (Inr (agent :: (uint64, unit) Agent))"
    by (simp add: NewAgent_def plain_host_def agent_from_dsn_def agent_api_key_def
        agent_api_endpoint_def agent_testing_mode_def env_set_def WithApiKey_def Let_def)
  from NewAgent_samples_every_span [OF a] obtain t where
    t: "tracer agent = Some t" and s: "\<forall>sc. span_of t sc \<longrightarrow> sc_Sampled sc"
    by blast
  have "span_of t (StartSpan t (Some (StartSpan t None 5 1)) 6 2)"
    by (intro span_of.intros)
  with a t s show ?thesis by blast
qed

section \<open>Errors of the composite field are lost\<close>

lemma traceparent_wrong_version_closure:
  "Extract_traceparent ''traceparent''
      ''01-0af7651916cd43dd8448eb211c80319c-b7ad6b7169203331-01'' extract_init =
     (Some ErrSpanContextCorrupted, extract_init)"
  by code_simp

text \<open>
  C4, at a carrier whose only entry is a \<open>traceparent\<close> value with version \<open>01\<close>. The closure
  of the first pass returns \<open>ErrSpanContextCorrupted\<close> (the lemma above), \<open>Extract\<close> overwrites
  that result with the result of the second pass, and the extraction ends with
  \<open>ErrSpanContextNotFound\<close>.
\<close>

theorem traceparent_wrong_version_not_found:
  "textMapPropagator_Extract (\<lambda>c. c) (\<lambda>c. c)
     (TextMapCarrier
        [(''traceparent'', ''01-0af7651916cd43dd8448eb211c80319c-b7ad6b7169203331-01'')]) =
     Inl ErrSpanContextNotFound"
  by code_simp


end
